theory Spec2Isabelle
  imports Complex_Main "HOL-Library.Word"
begin

unbundle bit_operations_syntax

section \<open>Bytes, files and \<open>struct.unpack\<close>\<close>

text \<open>
  Both converters open a file in binary mode and read it through a cursor. A file is the
  byte buffer and the cursor position; \<open>f.read(n)\<close> returns at most \<open>n\<close> bytes, all
  remaining bytes when \<open>n\<close> is -1, and raises \<open>ValueError\<close> when \<open>n\<close> is below -1;
  \<open>f.seek(k)\<close> moves the cursor to any non-negative position, also beyond the end.
\<close>

type_synonym byte = "8 word"

record bfile =
  buf :: "byte list"
  pos :: nat

text \<open>
  The exceptions raised by the two scripts. \<open>TruncatedInput\<close> is the \<open>struct.error\<close> that
  \<open>struct.unpack\<close> raises on a buffer of the wrong length, \<open>IndexError\<close> is Python's
  \<open>IndexError\<close> of an index into \<open>bytes\<close>, \<open>InvalidReadSize\<close> is the \<open>ValueError\<close> of
  \<open>f.read\<close> with a size below -1; the others are the \<open>ValueError\<close>s raised explicitly:
  "Not a valid ICO file", "No 32x32 image found", "Expected 32x32, got ...",
  "Expected 4-bit BMP, got ...", "Not a BMP file".
\<close>

datatype error =
    TruncatedInput
  | IndexError
  | InvalidReadSize
  | InvalidContainer
  | NoMatchingEntry
  | DimensionMismatch
  | UnsupportedDepth
  | NotABitmap

definition open_file :: "byte list \<Rightarrow> bfile" where
  "open_file bs = \<lparr>buf = bs, pos = 0\<rparr>"

definition read :: "int \<Rightarrow> bfile \<Rightarrow> error + (byte list \<times> bfile)" where
  "read n f =
     (if n < - 1 then Inl InvalidReadSize
      else (let rest = drop (pos f) (buf f);
                d = (if n < 0 then rest else take (nat n) rest)
            in Inr (d, f\<lparr>pos := pos f + length d\<rparr>)))"

definition seek :: "int \<Rightarrow> bfile \<Rightarrow> bfile" where
  "seek k f = f\<lparr>pos := nat k\<rparr>"

text \<open>Little-endian value of a byte string.\<close>

fun le_val :: "byte list \<Rightarrow> int" where
  "le_val [] = 0"
| "le_val (b # bs) = uint b + 256 * le_val bs"

text \<open>\<open>struct.unpack('<B' | '<H' | '<I', bs)[0]\<close>: the buffer must have exactly the size.\<close>

definition unpack_uint :: "nat \<Rightarrow> byte list \<Rightarrow> error + int" where
  "unpack_uint k bs = (if length bs = k then Inr (le_val bs) else Inl TruncatedInput)"

text \<open>\<open>struct.unpack('<i', bs)[0]\<close>: two's complement on 32 bits.\<close>

definition unpack_i32 :: "byte list \<Rightarrow> error + int" where
  "unpack_i32 bs =
     (if length bs = 4
      then Inr (let v = le_val bs in if v < 2 ^ 31 then v else v - 2 ^ 32)
      else Inl TruncatedInput)"

text \<open>Sequencing of steps that may raise and that move the cursor.\<close>

definition and_then ::
  "(bfile \<Rightarrow> error + ('a \<times> bfile)) \<Rightarrow> ('a \<Rightarrow> bfile \<Rightarrow> error + ('b \<times> bfile)) \<Rightarrow>
   bfile \<Rightarrow> error + ('b \<times> bfile)" where
  "and_then m k f = (case m f of Inl e \<Rightarrow> Inl e | Inr (x, f') \<Rightarrow> k x f')"

text \<open>The same for a step that only computes a value or raises.\<close>

definition or_raise :: "error + 'a \<Rightarrow> ('a \<Rightarrow> error + 'b) \<Rightarrow> error + 'b" where
  "or_raise m k = (case m of Inl e \<Rightarrow> Inl e | Inr x \<Rightarrow> k x)"

text \<open>\<open>struct.unpack(fmt, f.read(k))[0]\<close> for the unsigned formats.\<close>

definition read_uint :: "nat \<Rightarrow> bfile \<Rightarrow> error + (int \<times> bfile)" where
  "read_uint k f =
     (case read (int k) f of
        Inl e \<Rightarrow> Inl e
      | Inr (bs, f') \<Rightarrow>
          (case unpack_uint k bs of Inl e \<Rightarrow> Inl e | Inr v \<Rightarrow> Inr (v, f')))"

definition read_i32 :: "bfile \<Rightarrow> error + (int \<times> bfile)" where
  "read_i32 f =
     (case read 4 f of
        Inl e \<Rightarrow> Inl e
      | Inr (bs, f') \<Rightarrow>
          (case unpack_i32 bs of Inl e \<Rightarrow> Inl e | Inr v \<Rightarrow> Inr (v, f')))"

section \<open>\<open>convert_icons.py\<close>: \<open>parse_ico\<close>\<close>

text \<open>One 16-byte ICONDIRENTRY as the loop body reads it, field by field.\<close>

record dir_entry =
  width :: int
  height :: int
  color_count :: int
  reserved :: int
  planes :: int
  bit_count :: int
  bytes_in_res :: int
  image_offset :: int

definition read_entry :: "bfile \<Rightarrow> error + (dir_entry \<times> bfile)" where
  "read_entry =
     and_then (read_uint 1) (\<lambda>w.
     and_then (read_uint 1) (\<lambda>h.
     and_then (read_uint 1) (\<lambda>cc.
     and_then (read_uint 1) (\<lambda>res.
     and_then (read_uint 2) (\<lambda>pl.
     and_then (read_uint 2) (\<lambda>bc.
     and_then (read_uint 4) (\<lambda>sz.
     and_then (read_uint 4) (\<lambda>off. \<lambda>f.
       Inr (\<lparr>width = w, height = h, color_count = cc, reserved = res, planes = pl,
             bit_count = bc, bytes_in_res = sz, image_offset = off\<rparr>, f)))))))))"

text \<open>\<open>best_entry\<close> is \<open>None\<close> or the tuple \<open>(image_offset, bit_count, bytes_in_res)\<close>.\<close>

type_synonym best = "int \<times> int \<times> int"

text \<open>A width or height of 0 means 256.\<close>

definition norm_dim :: "int \<Rightarrow> int" where
  "norm_dim d = (if d = 0 then 256 else d)"

definition update_best :: "best option \<Rightarrow> dir_entry \<Rightarrow> best option" where
  "update_best best_entry e =
     (if norm_dim (width e) = 32 \<and> norm_dim (height e) = 32
      then (case best_entry of
              None \<Rightarrow> Some (image_offset e, bit_count e, bytes_in_res e)
            | Some (off, bc, sz) \<Rightarrow>
                if bit_count e > bc
                then Some (image_offset e, bit_count e, bytes_in_res e)
                else best_entry)
      else best_entry)"

text \<open>The loop \<open>for i in range(count)\<close>, with the remaining number of iterations.\<close>

fun find_best :: "nat \<Rightarrow> bfile \<Rightarrow> best option \<Rightarrow> error + (best option \<times> bfile)" where
  "find_best 0 f best_entry = Inr (best_entry, f)"
| "find_best (Suc n) f best_entry =
     (case read_entry f of
        Inl e \<Rightarrow> Inl e
      | Inr (d, f') \<Rightarrow> find_best n f' (update_best best_entry d))"

text \<open>\<open>parse_ico\<close> returns \<open>(image_data, bit_count)\<close>.\<close>

definition parse_ico :: "byte list \<Rightarrow> error + (byte list \<times> int)" where
  "parse_ico ico =
     (case (and_then (read_uint 2) (\<lambda>reserved_field.
            and_then (read_uint 2) (\<lambda>type_field.
            and_then (read_uint 2) (\<lambda>count. \<lambda>f.
              if reserved_field \<noteq> 0 \<or> type_field \<noteq> 1 then Inl InvalidContainer
              else (case find_best (nat count) f None of
                      Inl e \<Rightarrow> Inl e
                    | Inr (None, f') \<Rightarrow> Inl NoMatchingEntry
                    | Inr (Some (offset, bc, sz), f') \<Rightarrow>
                        (case read sz (seek offset f') of
                           Inl e \<Rightarrow> Inl e
                         | Inr (image_data, f'') \<Rightarrow> Inr ((image_data, bc), f'')))))))
           (open_file ico)
      of Inl e \<Rightarrow> Inl e | Inr (r, f) \<Rightarrow> Inr r)"

section \<open>\<open>convert_icons.py\<close>: \<open>bmp_to_rgba\<close>\<close>

text \<open>\<open>data[a:b]\<close> never fails: it is cut at the end of the data.\<close>

definition slice :: "byte list \<Rightarrow> nat \<Rightarrow> nat \<Rightarrow> byte list" where
  "slice d a b = take (b - a) (drop a d)"

text \<open>\<open>data[i]\<close> for a non-negative index: an integer in 0..255, or \<open>IndexError\<close>.\<close>

definition index :: "byte list \<Rightarrow> nat \<Rightarrow> error + int" where
  "index d i = (if i < length d then Inr (uint (d ! i)) else Inl IndexError)"

text \<open>The message printed on the placeholder path, with the bit count it names.\<close>

datatype warning = NotFullySupported int

text \<open>The body of the inner loop: the four reads at \<open>offset\<close>, then \<open>[r, g, b, a]\<close>.\<close>

definition pixel32 :: "byte list \<Rightarrow> nat \<Rightarrow> nat \<Rightarrow> error + int list" where
  "pixel32 bmp_data y x =
     (let offset = 40 + (y * 32 + x) * 4 in
      or_raise (index bmp_data offset) (\<lambda>b.
      or_raise (index bmp_data (offset + 1)) (\<lambda>g.
      or_raise (index bmp_data (offset + 2)) (\<lambda>r.
      or_raise (index bmp_data (offset + 3)) (\<lambda>a.
        Inr [r, g, b, a])))))"

text \<open>\<open>for x in range(32)\<close>, extending \<open>pixels\<close>.\<close>

fun row32 :: "byte list \<Rightarrow> nat \<Rightarrow> nat list \<Rightarrow> int list \<Rightarrow> error + int list" where
  "row32 bmp_data y [] pixels = Inr pixels"
| "row32 bmp_data y (x # xs) pixels =
     (case pixel32 bmp_data y x of
        Inl e \<Rightarrow> Inl e
      | Inr p \<Rightarrow> row32 bmp_data y xs (pixels @ p))"

text \<open>\<open>for y in range(31, -1, -1)\<close>.\<close>

fun rows32 :: "byte list \<Rightarrow> nat list \<Rightarrow> int list \<Rightarrow> error + int list" where
  "rows32 bmp_data [] pixels = Inr pixels"
| "rows32 bmp_data (y # ys) pixels =
     (case row32 bmp_data y [0..<32] pixels of
        Inl e \<Rightarrow> Inl e
      | Inr pixels' \<Rightarrow> rows32 bmp_data ys pixels')"

text \<open>\<open>for i in range(32 * 32): pixels.extend([128, 128, 192, 255])\<close>.\<close>

fun placeholder :: "nat \<Rightarrow> int list \<Rightarrow> int list" where
  "placeholder 0 pixels = pixels"
| "placeholder (Suc n) pixels = placeholder n (pixels @ [128, 128, 192, 255])"

text \<open>\<open>bmp_to_rgba\<close> returns the pixels; the second component is what it printed.\<close>

definition bmp_to_rgba :: "byte list \<Rightarrow> int \<Rightarrow> error + (int list \<times> warning list)" where
  "bmp_to_rgba bmp_data bc =
     or_raise (unpack_uint 4 (slice bmp_data 0 4)) (\<lambda>header_size.
     or_raise (unpack_i32 (slice bmp_data 4 8)) (\<lambda>w.
     or_raise (unpack_i32 (slice bmp_data 8 12)) (\<lambda>h.
       (let actual_height = \<bar>h\<bar> div 2 in
        if w \<noteq> 32 \<or> actual_height \<noteq> 32 then Inl DimensionMismatch
        else if bc = 32
          then or_raise (rows32 bmp_data (rev [0..<32]) []) (\<lambda>pixels. Inr (pixels, []))
          else Inr (placeholder (32 * 32) [], [NotFullySupported bc])))))"

text \<open>The body of the \<open>try\<close> block of \<open>main\<close>, up to the pixels handed to the emitter.\<close>

definition convert_icon :: "byte list \<Rightarrow> error + (int list \<times> warning list)" where
  "convert_icon ico =
     (case parse_ico ico of
        Inl e \<Rightarrow> Inl e
      | Inr (image_data, bc) \<Rightarrow> bmp_to_rgba image_data bc)"

section \<open>\<open>convert_start_bmp.py\<close>: \<open>read_bmp_4bit\<close>\<close>

type_synonym rgba = "int \<times> int \<times> int \<times> int"

text \<open>The colour key: magenta is transparent.\<close>

definition palette_entry :: "int \<Rightarrow> int \<Rightarrow> int \<Rightarrow> rgba" where
  "palette_entry b g r =
     (if r > 200 \<and> b > 200 \<and> g < 50 then (r, g, b, 0) else (r, g, b, 255))"

text \<open>\<open>struct.unpack('BBBB', f.read(4))\<close> and the entry appended to the palette.\<close>

definition read_palette_entry :: "bfile \<Rightarrow> error + (rgba \<times> bfile)" where
  "read_palette_entry f =
     (case read 4 f of
        Inl e \<Rightarrow> Inl e
      | Inr ([b, g, r, rsv], f') \<Rightarrow> Inr (palette_entry (uint b) (uint g) (uint r), f')
      | Inr (_, f') \<Rightarrow> Inl TruncatedInput)"

text \<open>\<open>for i in range(16)\<close>, appending to \<open>palette\<close>.\<close>

fun read_palette :: "nat \<Rightarrow> bfile \<Rightarrow> rgba list \<Rightarrow> error + (rgba list \<times> bfile)" where
  "read_palette 0 f palette = Inr (palette, f)"
| "read_palette (Suc n) f palette =
     (case read_palette_entry f of
        Inl e \<Rightarrow> Inl e
      | Inr (c, f') \<Rightarrow> read_palette n f' (palette @ [c]))"

text \<open>\<open>palette[palette_index]\<close> for a non-negative index.\<close>

definition lookup :: "rgba list \<Rightarrow> int \<Rightarrow> error + rgba" where
  "lookup palette i =
     (if 0 \<le> i \<and> nat i < length palette then Inr (palette ! nat i) else Inl IndexError)"

definition row_size :: "int \<Rightarrow> int" where
  "row_size w = ((w * 4 + 31) div 32) * 4"

text \<open>The body of the inner loop, for one \<open>x\<close>.\<close>

definition pixel4 :: "rgba list \<Rightarrow> byte list \<Rightarrow> nat \<Rightarrow> error + int list" where
  "pixel4 palette row_data x =
     (let byte_index = x div 2 in
      or_raise (index row_data byte_index) (\<lambda>v.
        (let palette_index = (if x mod 2 = 0 then (drop_bit 4 v) AND 15 else v AND 15) in
         or_raise (lookup palette palette_index) (\<lambda>(r, g, b, a). Inr [r, g, b, a]))))"

text \<open>\<open>for x in range(width)\<close>, extending \<open>pixels\<close>.\<close>

fun row4 :: "rgba list \<Rightarrow> byte list \<Rightarrow> nat list \<Rightarrow> int list \<Rightarrow> error + int list" where
  "row4 palette row_data [] pixels = Inr pixels"
| "row4 palette row_data (x # xs) pixels =
     (case pixel4 palette row_data x of
        Inl e \<Rightarrow> Inl e
      | Inr p \<Rightarrow> row4 palette row_data xs (pixels @ p))"

text \<open>
  \<open>for y in range(height - 1, -1, -1)\<close>: each iteration reads the next \<open>row_size\<close> bytes
  at the cursor; the loop variable \<open>y\<close> is not used by the body.
\<close>

fun rows4 ::
  "rgba list \<Rightarrow> int \<Rightarrow> int \<Rightarrow> int list \<Rightarrow> bfile \<Rightarrow> int list \<Rightarrow> error + (int list \<times> bfile)" where
  "rows4 palette w rs [] f pixels = Inr (pixels, f)"
| "rows4 palette w rs (y # ys) f pixels =
     (case read rs f of
        Inl e \<Rightarrow> Inl e
      | Inr (row_data, f') \<Rightarrow>
          (case row4 palette row_data [0..<nat w] pixels of
             Inl e \<Rightarrow> Inl e
           | Inr pixels' \<Rightarrow> rows4 palette w rs ys f' pixels'))"

text \<open>
  Everything before the pixel loop: the file header, the DIB header, the palette and the
  seek to the pixel data. Gives \<open>(width, height, palette)\<close> and the file at the pixel data.
\<close>

definition read_bmp_header :: "byte list \<Rightarrow> error + ((int \<times> int \<times> rgba list) \<times> bfile)" where
  "read_bmp_header bmp =
     and_then (read 14) (\<lambda>header. \<lambda>f1.
       if slice header 0 2 \<noteq> [0x42, 0x4D] then Inl NotABitmap
       else or_raise (unpack_uint 4 (slice header 10 14)) (\<lambda>pixel_offset.
         (and_then (read_uint 4) (\<lambda>dib_size.
          and_then read_i32 (\<lambda>w.
          and_then read_i32 (\<lambda>h.
          and_then (read 2) (\<lambda>planes_bytes.
          and_then (read_uint 2) (\<lambda>bc. \<lambda>f.
            if bc \<noteq> 4 then Inl UnsupportedDepth
            else (case read_palette 16 (seek (14 + dib_size) f) [] of
                    Inl e \<Rightarrow> Inl e
                  | Inr (palette, f') \<Rightarrow> Inr ((w, h, palette), seek pixel_offset f')))))))) f1))
       (open_file bmp)"

text \<open>\<open>read_bmp_4bit\<close> returns \<open>(width, height, pixels)\<close>.\<close>

definition read_bmp_4bit :: "byte list \<Rightarrow> error + (int \<times> int \<times> int list)" where
  "read_bmp_4bit bmp =
     (case read_bmp_header bmp of
        Inl e \<Rightarrow> Inl e
      | Inr ((w, h, palette), f) \<Rightarrow>
          (case rows4 palette w (row_size w) (rev [0..h - 1]) f [] of
             Inl e \<Rightarrow> Inl e
           | Inr (pixels, f') \<Rightarrow> Inr (w, h, pixels)))"

section \<open>Reference descriptions of the file layouts\<close>

text \<open>The unsigned little-endian integer stored in the \<open>k\<close> bytes at offset \<open>p\<close>.\<close>

definition field :: "byte list \<Rightarrow> nat \<Rightarrow> nat \<Rightarrow> int" where
  "field d p k = le_val (take k (drop p d))"

text \<open>The 16-byte descriptor record stored at offset \<open>p\<close>, by its layout.\<close>

definition entry_at :: "byte list \<Rightarrow> nat \<Rightarrow> dir_entry" where
  "entry_at d p =
     \<lparr>width = field d p 1, height = field d (p + 1) 1, color_count = field d (p + 2) 1,
      reserved = field d (p + 3) 1, planes = field d (p + 4) 2, bit_count = field d (p + 6) 2,
      bytes_in_res = field d (p + 8) 4, image_offset = field d (p + 12) 4\<rparr>"

text \<open>A descriptor matches the target when its normalised dimensions are 32 by 32.\<close>

definition matches :: "dir_entry \<Rightarrow> bool" where
  "matches e = (norm_dim (width e) = 32 \<and> norm_dim (height e) = 32)"

text \<open>
  The selection rule: index \<open>i\<close> is a matching descriptor, no matching descriptor has a
  higher bit count, and every earlier matching descriptor has a strictly lower one.
\<close>

definition chosen :: "dir_entry list \<Rightarrow> nat \<Rightarrow> bool" where
  "chosen ds i =
     (i < length ds \<and> matches (ds ! i) \<and>
      (\<forall>j<length ds. matches (ds ! j) \<longrightarrow> bit_count (ds ! j) \<le> bit_count (ds ! i)) \<and>
      (\<forall>j<i. matches (ds ! j) \<longrightarrow> bit_count (ds ! j) < bit_count (ds ! i)))"

text \<open>The \<open>n\<close> descriptors that follow the 6-byte header.\<close>

definition directory :: "byte list \<Rightarrow> nat \<Rightarrow> dir_entry list" where
  "directory ico n = map (\<lambda>i. entry_at ico (6 + 16 * i)) [0..<n]"

text \<open>The four bytes blue, green, red, alpha stored at \<open>off\<close>, reordered to red, green, blue, alpha.\<close>

definition bgra_to_rgba :: "byte list \<Rightarrow> nat \<Rightarrow> int list" where
  "bgra_to_rgba d off = [uint (d ! (off + 2)), uint (d ! (off + 1)), uint (d ! off), uint (d ! (off + 3))]"

text \<open>The 32 pixels of the stored row \<open>y\<close> of a 32-bit icon bitmap, after its 40-byte header.\<close>

definition icon_row :: "byte list \<Rightarrow> nat \<Rightarrow> int list" where
  "icon_row d y = concat (map (\<lambda>x. bgra_to_rgba d (40 + (y * 32 + x) * 4)) [0..<32])"

text \<open>The signed 32-bit little-endian integer stored at offset \<open>p\<close>.\<close>

definition sfield :: "byte list \<Rightarrow> nat \<Rightarrow> int" where
  "sfield d p = (let v = field d p 4 in if v < 2 ^ 31 then v else v - 2 ^ 32)"

text \<open>The \<open>n\<close> palette entries stored from offset \<open>p\<close>, four bytes each: blue, green, red, reserved.\<close>

definition palette_at :: "byte list \<Rightarrow> nat \<Rightarrow> nat \<Rightarrow> rgba list" where
  "palette_at d p n =
     map (\<lambda>i. palette_entry (uint (d ! (p + 4 * i))) (uint (d ! (p + 4 * i + 1)))
                 (uint (d ! (p + 4 * i + 2)))) [0..<n]"

text \<open>The palette index of pixel \<open>x\<close> in its byte: high nibble for even \<open>x\<close>, low nibble for odd \<open>x\<close>.\<close>

definition nibble :: "nat \<Rightarrow> int \<Rightarrow> int" where
  "nibble x v = (if even x then v div 16 else v mod 16)"

text \<open>A palette entry as the four output values.\<close>

definition quad :: "rgba \<Rightarrow> int list" where
  "quad c = (case c of (r, g, b, a) \<Rightarrow> [r, g, b, a])"

text \<open>Pixel \<open>x\<close> of a stored row: the nibble of byte \<open>x div 2\<close>, looked up in the palette.\<close>

definition pixel_at :: "rgba list \<Rightarrow> byte list \<Rightarrow> nat \<Rightarrow> int list" where
  "pixel_at pal row x = quad (pal ! nat (nibble x (uint (row ! (x div 2)))))"

text \<open>The \<open>n\<close> pixels of a stored row, left to right.\<close>

definition row_pixels :: "rgba list \<Rightarrow> byte list \<Rightarrow> nat \<Rightarrow> int list" where
  "row_pixels pal row n = concat (map (pixel_at pal row) [0..<n])"

text \<open>Stored row \<open>i\<close> of pixel data that starts at offset \<open>q\<close> with stride \<open>rs\<close>.\<close>

definition stored_row :: "byte list \<Rightarrow> nat \<Rightarrow> nat \<Rightarrow> nat \<Rightarrow> byte list" where
  "stored_row d q rs i = take rs (drop (q + i * rs) d)"

text \<open>The pixels of \<open>m\<close> stored rows of \<open>n\<close> pixels, in the order in which the rows are stored.\<close>

definition image_pixels :: "rgba list \<Rightarrow> byte list \<Rightarrow> nat \<Rightarrow> nat \<Rightarrow> nat \<Rightarrow> nat \<Rightarrow> int list" where
  "image_pixels pal d q rs n m = concat (map (\<lambda>i. row_pixels pal (stored_row d q rs i) n) [0..<m])"

text \<open>Each of the \<open>m\<close> stored rows has the bytes that hold its \<open>n\<close> pixels.\<close>

definition rows_present :: "byte list \<Rightarrow> nat \<Rightarrow> nat \<Rightarrow> nat \<Rightarrow> nat \<Rightarrow> bool" where
  "rows_present d q rs n m = (\<forall>i<m. (n + 1) div 2 \<le> length (stored_row d q rs i))"

text \<open>
  The part of a standalone bitmap before its pixel data is well formed: magic "BM", the
  headers up to the bit count present, bit count 4, and the 16 palette entries present at
  \<open>14 + dib_size\<close>.
\<close>

definition bmp_header_ok :: "byte list \<Rightarrow> bool" where
  "bmp_header_ok bmp =
     (take 2 bmp = [0x42, 0x4D] \<and> 30 \<le> length bmp \<and> field bmp 28 2 = 4 \<and>
      14 + nat (field bmp 14 4) + 64 \<le> length bmp)"

text \<open>
  The decoding of a standalone bitmap by its layout: pixel data at the offset stored at
  byte 10, width at byte 18, height at byte 22, stride \<open>row_size width\<close>.
\<close>

definition bmp_pixels :: "byte list \<Rightarrow> int list" where
  "bmp_pixels bmp =
     image_pixels (palette_at bmp (14 + nat (field bmp 14 4)) 16) bmp (nat (field bmp 10 4))
       (nat (row_size (sfield bmp 18))) (nat (sfield bmp 18)) (nat (sfield bmp 22))"

text \<open>The pixel rows that the header of a standalone bitmap announces are in the file.\<close>

definition bmp_rows_present :: "byte list \<Rightarrow> bool" where
  "bmp_rows_present bmp =
     rows_present bmp (nat (field bmp 10 4)) (nat (row_size (sfield bmp 18)))
       (nat (sfield bmp 18)) (nat (sfield bmp 22))"

subsection \<open>Concrete files used as examples\<close>

text \<open>
  A directory of three 32 by 32 descriptors with bit counts 8, 32 and 32, followed by
  their three 4-byte regions.
\<close>

definition ico_three :: "byte list" where
  "ico_three =
     [32, 32, 0, 0, 1, 0, 8, 0, 4, 0, 0, 0, 54, 0, 0, 0,
      32, 32, 0, 0, 1, 0, 32, 0, 4, 0, 0, 0, 58, 0, 0, 0,
      32, 32, 0, 0, 1, 0, 32, 0, 4, 0, 0, 0, 62, 0, 0, 0,
      1, 2, 3, 4, 5, 6, 7, 8, 9, 10, 11, 12]"

text \<open>
  A palette of 16 entries (blue, green, red, reserved): entry \<open>i < 15\<close> is blue \<open>i\<close>, green
  \<open>16 + i\<close>, red \<open>32 + i\<close>; entry 15 is magenta.
\<close>

definition tiny_palette :: "byte list" where
  "tiny_palette =
     [0, 16, 32, 0,   1, 17, 33, 0,   2, 18, 34, 0,   3, 19, 35, 0,
      4, 20, 36, 0,   5, 21, 37, 0,   6, 22, 38, 0,   7, 23, 39, 0,
      8, 24, 40, 0,   9, 25, 41, 0,   10, 26, 42, 0,  11, 27, 43, 0,
      12, 28, 44, 0,  13, 29, 45, 0,  14, 30, 46, 0,  255, 0, 255, 0]"

text \<open>
  A standalone 4-bit bitmap: 14-byte file header with the pixel data at offset 118, a
  40-byte DIB header with width \<open>w\<close> and the height bytes \<open>h0, hx, hx, hx\<close>, one plane,
  4 bits per pixel, the palette above and the pixel data \<open>px\<close>.
\<close>

definition tiny_bmp :: "byte \<Rightarrow> byte \<Rightarrow> byte \<Rightarrow> byte list \<Rightarrow> byte list" where
  "tiny_bmp w h0 hx px =
     [0x42, 0x4D, 0, 0, 0, 0, 0, 0, 0, 0, 118, 0, 0, 0,
      40, 0, 0, 0, w, 0, 0, 0, h0, hx, hx, hx, 1, 0, 4, 0,
      0, 0, 0, 0, 0, 0, 0, 0, 0, 0, 0, 0, 0, 0, 0, 0, 0, 0, 0, 0, 0, 0, 0, 0] @
     tiny_palette @ px"

text \<open>The first 12 bytes of an icon bitmap: header size 40, width \<open>w\<close>, declared height \<open>h\<close>.\<close>

definition icon_header :: "byte \<Rightarrow> byte \<Rightarrow> byte list" where
  "icon_header w h = [40, 0, 0, 0, w, 0, 0, 0, h, 0, 0, 0]"

text \<open>The palette above, decoded.\<close>

definition tiny_rgba :: "rgba list" where
  "tiny_rgba = palette_at tiny_palette 0 16"

section \<open>The binary reader and the directory loop\<close>

lemma and_then_read_uint:
  "0 < k \<Longrightarrow> and_then (read_uint k) g f =
     (if pos f + k \<le> length (buf f)
      then g (field (buf f) (pos f) k) (f\<lparr>pos := pos f + k\<rparr>)
      else Inl TruncatedInput)"
  by (auto simp: and_then_def read_uint_def read_def unpack_uint_def field_def Let_def)

lemma read_entry_ok:
  "pos f + 16 \<le> length (buf f) \<Longrightarrow>
   read_entry f = Inr (entry_at (buf f) (pos f), f\<lparr>pos := pos f + 16\<rparr>)"
  by (simp add: read_entry_def and_then_read_uint entry_at_def eval_nat_numeral)

lemma read_entry_short:
  "length (buf f) < pos f + 16 \<Longrightarrow> read_entry f = Inl TruncatedInput"
  by (simp add: read_entry_def and_then_read_uint)

lemma find_best_ok:
  "pos f + 16 * n \<le> length (buf f) \<Longrightarrow>
   find_best n f best =
     Inr (foldl update_best best (map (\<lambda>i. entry_at (buf f) (pos f + 16 * i)) [0..<n]),
          f\<lparr>pos := pos f + 16 * n\<rparr>)"
proof (induction n arbitrary: f best)
  case 0
  then show ?case by simp
next
  case (Suc n)
  let ?f' = "f\<lparr>pos := pos f + 16\<rparr>"
  have r: "read_entry f = Inr (entry_at (buf f) (pos f), ?f')"
    using Suc.prems by (simp add: read_entry_ok)
  have ih: "find_best n ?f' (update_best best (entry_at (buf f) (pos f))) =
     Inr (foldl update_best (update_best best (entry_at (buf f) (pos f)))
            (map (\<lambda>i. entry_at (buf ?f') (pos ?f' + 16 * i)) [0..<n]),
          ?f'\<lparr>pos := pos ?f' + 16 * n\<rparr>)"
    using Suc.prems by (intro Suc.IH) simp
  have m: "map (\<lambda>i. entry_at (buf f) (pos f + 16 * i)) [0..<Suc n] =
           entry_at (buf f) (pos f) # map (\<lambda>i. entry_at (buf f) (pos f + 16 + 16 * i)) [0..<n]"
    by (simp add: upt_conv_Cons map_Suc_upt [symmetric] add.assoc del: upt_Suc)
  show ?case
    unfolding find_best.simps r m using ih by (simp add: add.assoc)
qed

lemma find_best_short:
  "pos f \<le> length (buf f) \<Longrightarrow> length (buf f) < pos f + 16 * n \<Longrightarrow>
   find_best n f best = Inl TruncatedInput"
proof (induction n arbitrary: f best)
  case 0
  then show ?case by simp
next
  case (Suc n)
  show ?case
  proof (cases "pos f + 16 \<le> length (buf f)")
    case True
    let ?f' = "f\<lparr>pos := pos f + 16\<rparr>"
    have "find_best n ?f' (update_best best (entry_at (buf f) (pos f))) = Inl TruncatedInput"
      using Suc.prems True by (intro Suc.IH) simp_all
    then show ?thesis using True by (simp add: read_entry_ok)
  next
    case False
    then show ?thesis by (simp add: read_entry_short)
  qed
qed

lemma parse_ico_short: "length ico < 6 \<Longrightarrow> parse_ico ico = Inl TruncatedInput"
  by (simp add: parse_ico_def and_then_read_uint open_file_def)

lemma parse_ico_unfold:
  "6 \<le> length ico \<Longrightarrow>
   parse_ico ico =
     (if field ico 0 2 \<noteq> 0 \<or> field ico 2 2 \<noteq> 1 then Inl InvalidContainer
      else (case find_best (nat (field ico 4 2)) \<lparr>buf = ico, pos = 6\<rparr> None of
              Inl e \<Rightarrow> Inl e
            | Inr (None, f') \<Rightarrow> Inl NoMatchingEntry
            | Inr (Some (offset, bc, sz), f') \<Rightarrow>
                (case read sz (seek offset f') of
                   Inl e \<Rightarrow> Inl e
                 | Inr (image_data, f'') \<Rightarrow> Inr (image_data, bc))))"
  by (simp add: parse_ico_def and_then_read_uint open_file_def eval_nat_numeral
           split: sum.splits option.splits prod.splits)

lemma chosen_keep:
  "chosen ds i \<Longrightarrow> \<not> matches d \<or> bit_count d \<le> bit_count (ds ! i) \<Longrightarrow> chosen (ds @ [d]) i"
  by (auto simp: chosen_def nth_append less_Suc_eq)

lemma chosen_new:
  assumes "matches d"
    and "\<forall>j<length ds. matches (ds ! j) \<longrightarrow> bit_count (ds ! j) < bit_count d"
  shows "chosen (ds @ [d]) (length ds)"
  using assms by (auto simp: chosen_def nth_append less_Suc_eq)

lemma update_best_None:
  "update_best None d =
     (if matches d then Some (image_offset d, bit_count d, bytes_in_res d) else None)"
  by (simp add: update_best_def matches_def)

lemma update_best_Some:
  "update_best (Some (off, bc, sz)) d =
     (if matches d \<and> bc < bit_count d
      then Some (image_offset d, bit_count d, bytes_in_res d) else Some (off, bc, sz))"
  by (simp add: update_best_def matches_def)

lemma select_cases:
  "(case foldl update_best None ds of
      None \<Rightarrow> \<forall>j<length ds. \<not> matches (ds ! j)
    | Some b \<Rightarrow> \<exists>i. chosen ds i \<and>
        b = (image_offset (ds ! i), bit_count (ds ! i), bytes_in_res (ds ! i)))"
proof (induction ds rule: rev_induct)
  case Nil
  then show ?case by simp
next
  case (snoc d ds)
  have step: "foldl update_best None (ds @ [d]) = update_best (foldl update_best None ds) d"
    by simp
  show ?case
  proof (cases "foldl update_best None ds")
    case None
    with snoc have no: "\<forall>j<length ds. \<not> matches (ds ! j)" by simp
    show ?thesis
    proof (cases "matches d")
      case True
      have "chosen (ds @ [d]) (length ds)"
        using True no by (intro chosen_new) auto
      then show ?thesis
        unfolding step None update_best_None using True by auto
    next
      case False
      then show ?thesis
        unfolding step None update_best_None using no
        by (auto simp: nth_append less_Suc_eq)
    qed
  next
    case (Some b)
    with snoc obtain i where i: "chosen ds i"
      and b: "b = (image_offset (ds ! i), bit_count (ds ! i), bytes_in_res (ds ! i))"
      by auto
    have il: "i < length ds" using i by (simp add: chosen_def)
    show ?thesis
    proof (cases "matches d \<and> bit_count (ds ! i) < bit_count d")
      case True
      have "\<forall>j<length ds. matches (ds ! j) \<longrightarrow> bit_count (ds ! j) < bit_count d"
        using i True by (fastforce simp: chosen_def)
      then have "chosen (ds @ [d]) (length ds)"
        using True by (intro chosen_new) auto
      then show ?thesis
        unfolding step Some b update_best_Some using True by auto
    next
      case False
      then have "chosen (ds @ [d]) i"
        using i by (intro chosen_keep) auto
      then show ?thesis
        unfolding step Some b update_best_Some using False il by (auto simp: nth_append)
    qed
  qed
qed

lemma le_val_nonneg: "0 \<le> le_val bs"
  by (induction bs) simp_all

lemma field_nonneg: "0 \<le> field d p k"
  by (simp add: field_def le_val_nonneg)

lemma header_fields:
  "field (r0 # r1 # t0 # t1 # c0 # c1 # rest) 0 2 = uint r0 + 256 * uint r1"
  "field (r0 # r1 # t0 # t1 # c0 # c1 # rest) 2 2 = uint t0 + 256 * uint t1"
  "field (r0 # r1 # t0 # t1 # c0 # c1 # rest) 4 2 = uint c0 + 256 * uint c1"
  by (simp_all add: field_def eval_nat_numeral)

text \<open>
  Claim C8. A container whose header does not have reserved = 0 and type = 1 makes
  \<open>parse_ico\<close> fail with \<open>InvalidContainer\<close>, whatever follows the six header bytes
  (also when the descriptors are missing or cut), and the conversion of that icon yields
  no pixels.
\<close>

theorem invalid_header_fails:
  assumes "uint r0 + 256 * uint r1 \<noteq> 0 \<or> uint t0 + 256 * uint t1 \<noteq> 1"
  shows "parse_ico ([r0, r1, t0, t1, c0, c1] @ rest) = Inl InvalidContainer \<and>
         convert_icon ([r0, r1, t0, t1, c0, c1] @ rest) = Inl InvalidContainer"
proof -
  have "parse_ico ([r0, r1, t0, t1, c0, c1] @ rest) = Inl InvalidContainer"
    using assms by (subst parse_ico_unfold) (auto simp: header_fields)
  then show ?thesis by (simp add: convert_icon_def)
qed

theorem invalid_header_fails_witness:
  "parse_ico ([1, 0, 1, 0, 3, 0] @ []) = Inl InvalidContainer \<and>
   convert_icon ([1, 0, 1, 0, 3, 0] @ []) = Inl InvalidContainer"
  using invalid_header_fails [of 1 0 1 0 3 0 "[]"] by simp

lemma read_uint_short:
  "0 < k \<Longrightarrow> length (buf f) < pos f + k \<Longrightarrow> read_uint k f = Inl TruncatedInput"
  by (auto simp: read_uint_def read_def unpack_uint_def Let_def)

text \<open>
  Claim C9. A buffer shorter than the header, or shorter than the \<open>count\<close> descriptors
  its valid header announces, makes \<open>parse_ico\<close> fail with \<open>TruncatedInput\<close>; every
  fixed-width read of the directory parser that would pass the end of the buffer fails
  with \<open>TruncatedInput\<close>.
\<close>

theorem truncated_directory_fails:
  "(length ico < 6 \<longrightarrow> parse_ico ico = Inl TruncatedInput) \<and>
   (length rest < 16 * nat (uint c0 + 256 * uint c1) \<longrightarrow>
      parse_ico ([0, 0, 1, 0, c0, c1] @ rest) = Inl TruncatedInput) \<and>
   (0 < k \<and> length (buf f) < pos f + k \<longrightarrow> read_uint k f = Inl TruncatedInput) \<and>
   (length (buf f) < pos f + 16 \<longrightarrow> read_entry f = Inl TruncatedInput)"
proof (intro conjI impI)
  assume "length ico < 6"
  then show "parse_ico ico = Inl TruncatedInput" by (rule parse_ico_short)
next
  let ?ico = "[0, 0, 1, 0, c0, c1] @ rest"
  assume short: "length rest < 16 * nat (uint c0 + 256 * uint c1)"
  have "find_best (nat (uint c0 + 256 * uint c1)) \<lparr>buf = ?ico, pos = 6\<rparr> None = Inl TruncatedInput"
    using short by (intro find_best_short) simp_all
  then show "parse_ico ?ico = Inl TruncatedInput"
    by (subst parse_ico_unfold) (simp_all add: header_fields)
next
  assume "0 < k \<and> length (buf f) < pos f + k"
  then show "read_uint k f = Inl TruncatedInput" by (simp add: read_uint_short)
next
  assume "length (buf f) < pos f + 16"
  then show "read_entry f = Inl TruncatedInput" by (rule read_entry_short)
qed

theorem truncated_directory_fails_witness:
  "parse_ico [0, 0, 1] = Inl TruncatedInput \<and>
   parse_ico ([0, 0, 1, 0, 3, 0] @ replicate 47 0) = Inl TruncatedInput \<and>
   read_uint 2 \<lparr>buf = [7], pos = 0\<rparr> = Inl TruncatedInput \<and>
   read_entry \<lparr>buf = replicate 15 0, pos = 0\<rparr> = Inl TruncatedInput"
  using truncated_directory_fails [of "[0, 0, 1]" "replicate 47 0" 3 0 2 "\<lparr>buf = [7], pos = 0\<rparr>"]
    truncated_directory_fails [of "[]" "[]" 0 0 1 "\<lparr>buf = replicate 15 0, pos = 0\<rparr>"]
  by simp

text \<open>
  Claim C1. For a container with a valid header and all of its \<open>n\<close> descriptors present,
  \<open>parse_ico\<close> fails with \<open>NoMatchingEntry\<close> when no descriptor is 32 by 32; otherwise it
  returns the region and bit count of the 32 by 32 descriptor with the highest bit
  count, the first one among those of equal bit count.
\<close>

theorem parse_ico_selects_best:
  assumes ico: "ico = [0, 0, 1, 0, c0, c1] @ rest"
    and n: "n = nat (uint c0 + 256 * uint c1)"
    and len: "16 * n \<le> length rest"
  shows "if \<exists>i<n. matches (directory ico n ! i)
         then \<exists>i. chosen (directory ico n) i \<and>
                parse_ico ico =
                  Inr (take (nat (bytes_in_res (directory ico n ! i)))
                         (drop (nat (image_offset (directory ico n ! i))) ico),
                       bit_count (directory ico n ! i))
         else parse_ico ico = Inl NoMatchingEntry"
proof -
  let ?ds = "directory ico n"
  have fb: "find_best n \<lparr>buf = ico, pos = 6\<rparr> None =
              Inr (foldl update_best None ?ds, \<lparr>buf = ico, pos = 6 + 16 * n\<rparr>)"
    using len ico by (subst find_best_ok) (simp_all add: directory_def)
  have p: "parse_ico ico =
      (case foldl update_best None ?ds of
         None \<Rightarrow> Inl NoMatchingEntry
       | Some (offset, bc, sz) \<Rightarrow>
           (case read sz (seek offset \<lparr>buf = ico, pos = 6 + 16 * n\<rparr>) of
              Inl e \<Rightarrow> Inl e
            | Inr (image_data, f'') \<Rightarrow> Inr (image_data, bc)))"
    using fb by (subst parse_ico_unfold) (simp_all add: ico header_fields n [symmetric] split: option.splits)
  have lds: "length ?ds = n" by (simp add: directory_def)
  show ?thesis
  proof (cases "foldl update_best None ?ds")
    case None
    then have "\<forall>j<n. \<not> matches (?ds ! j)"
      using select_cases [of ?ds] lds by simp
    then show ?thesis using p None by simp
  next
    case (Some b)
    then obtain i where i: "chosen ?ds i"
      and b: "b = (image_offset (?ds ! i), bit_count (?ds ! i), bytes_in_res (?ds ! i))"
      using select_cases [of ?ds] by auto
    have "i < n" "matches (?ds ! i)" using i lds by (simp_all add: chosen_def)
    then have ex: "\<exists>i<n. matches (?ds ! i)" by blast
    have sz: "0 \<le> bytes_in_res (?ds ! i)"
      using \<open>i < n\<close> by (simp add: directory_def entry_at_def field_nonneg)
    have "parse_ico ico =
            Inr (take (nat (bytes_in_res (?ds ! i))) (drop (nat (image_offset (?ds ! i))) ico),
                 bit_count (?ds ! i))"
      using sz by (simp add: p Some b read_def seek_def Let_def)
    then show ?thesis using ex i by auto
  qed
qed

lemma directory_three:
  "directory (0 # 0 # 1 # 0 # 3 # 0 # ico_three) 3 =
    [\<lparr>width = 32, height = 32, color_count = 0, reserved = 0, planes = 1,
             bit_count = 8, bytes_in_res = 4, image_offset = 54\<rparr>,
     \<lparr>width = 32, height = 32, color_count = 0, reserved = 0, planes = 1,
             bit_count = 32, bytes_in_res = 4, image_offset = 58\<rparr>,
     \<lparr>width = 32, height = 32, color_count = 0, reserved = 0, planes = 1,
             bit_count = 32, bytes_in_res = 4, image_offset = 62\<rparr>]"
  by (simp add: directory_def entry_at_def field_def ico_three_def upt_conv_Cons)

theorem parse_ico_selects_best_witness:
  "16 * 3 \<le> length ico_three \<and>
   parse_ico ([0, 0, 1, 0, 3, 0] @ ico_three) = Inr ([5, 6, 7, 8], 32)"
proof -
  let ?ico = "0 # 0 # 1 # 0 # 3 # 0 # ico_three"
  let ?ds = "directory ?ico 3"
  have ico: "?ico = [0, 0, 1, 0, 3, 0] @ ico_three" by simp
  have len: "16 * 3 \<le> length ico_three" by (simp add: ico_three_def)
  have m: "\<exists>i<3. matches (?ds ! i)"
    by (rule exI [of _ 0]) (simp add: directory_three matches_def norm_dim_def)
  from parse_ico_selects_best [of ?ico 3 0 ico_three 3, OF ico _ len] m
  obtain i where c: "chosen ?ds i"
    and p: "parse_ico ?ico =
              Inr (take (nat (bytes_in_res (?ds ! i))) (drop (nat (image_offset (?ds ! i))) ?ico),
                   bit_count (?ds ! i))"
    by auto
  have "i < 3" using c by (simp add: chosen_def directory_three)
  then consider "i = 0" | "i = 1" | "i = 2" by linarith
  then have "i = 1"
  proof cases
    case 1
    then show ?thesis
      using c by (auto simp: chosen_def directory_three matches_def norm_dim_def
          dest!: spec [of _ 1])
  next
    case 2
    then show ?thesis .
  next
    case 3
    then show ?thesis
      using c by (auto simp: chosen_def directory_three matches_def norm_dim_def
          dest!: spec [of _ 1])
  qed
  then have "parse_ico ?ico = Inr ([5, 6, 7, 8], 32)"
    using p by (simp add: directory_three) (simp add: ico_three_def)
  then show ?thesis using len by simp
qed

section \<open>The 32-bit icon decoder\<close>

lemma pixel32_eq:
  "pixel32 d y x =
     (if 40 + (y * 32 + x) * 4 + 3 < length d
      then Inr (bgra_to_rgba d (40 + (y * 32 + x) * 4)) else Inl IndexError)"
  by (simp add: pixel32_def or_raise_def index_def bgra_to_rgba_def Let_def)

lemma row32_eq:
  "row32 d y xs px =
     (if \<forall>x\<in>set xs. 40 + (y * 32 + x) * 4 + 3 < length d
      then Inr (px @ concat (map (\<lambda>x. bgra_to_rgba d (40 + (y * 32 + x) * 4)) xs))
      else Inl IndexError)"
  by (induction xs arbitrary: px) (simp_all add: pixel32_eq)

lemma row32_full:
  "row32 d y [0..<32] px =
     (if 40 + (y * 32 + 31) * 4 + 3 < length d then Inr (px @ icon_row d y) else Inl IndexError)"
proof -
  have "(\<forall>x\<in>set [0..<32]. 40 + (y * 32 + x) * 4 + 3 < length d) \<longleftrightarrow>
        40 + (y * 32 + 31) * 4 + 3 < length d"
  proof
    assume "\<forall>x\<in>set [0..<32]. 40 + (y * 32 + x) * 4 + 3 < length d"
    then have "40 + (y * 32 + 31) * 4 + 3 < length d"
      by (rule bspec) simp
    then show "40 + (y * 32 + 31) * 4 + 3 < length d" .
  next
    assume "40 + (y * 32 + 31) * 4 + 3 < length d"
    then show "\<forall>x\<in>set [0..<32]. 40 + (y * 32 + x) * 4 + 3 < length d"
      by auto
  qed
  then show ?thesis
    unfolding row32_eq icon_row_def by simp
qed

lemma rows32_eq:
  "rows32 d ys px =
     (if \<forall>y\<in>set ys. 40 + (y * 32 + 31) * 4 + 3 < length d
      then Inr (px @ concat (map (icon_row d) ys)) else Inl IndexError)"
  by (induction ys arbitrary: px) (simp_all add: row32_full)

lemma rows32_all:
  "rows32 d (rev [0..<32]) [] =
     (if 4136 \<le> length d then Inr (concat (map (icon_row d) (rev [0..<32]))) else Inl IndexError)"
proof -
  have "(\<forall>y\<in>set (rev [0..<32]). 40 + (y * 32 + 31) * 4 + 3 < length d) \<longleftrightarrow> 4136 \<le> length d"
  proof
    assume "\<forall>y\<in>set (rev [0..<32]). 40 + (y * 32 + 31) * 4 + 3 < length d"
    then have "40 + (31 * 32 + 31) * 4 + 3 < length d"
      by (rule bspec) simp
    then show "4136 \<le> length d" by simp
  next
    assume "4136 \<le> length d"
    then show "\<forall>y\<in>set (rev [0..<32]). 40 + (y * 32 + 31) * 4 + 3 < length d"
      by auto
  qed
  then show ?thesis
    unfolding rows32_eq by simp
qed

lemma placeholder_eq:
  "placeholder n px = px @ concat (replicate n [128, 128, 192, 255])"
proof (induction n arbitrary: px)
  case 0
  then show ?case by simp
next
  case (Suc n)
  have "concat (replicate (Suc n) [128, 128, 192, 255::int]) =
        [128, 128, 192, 255] @ concat (replicate n [128, 128, 192, 255])"
    by simp
  then show ?case using Suc by simp
qed

lemma length_icon_row: "length (icon_row d y) = 128"
  by (simp add: icon_row_def length_concat o_def bgra_to_rgba_def sum_list_triv)

lemma length_icon_rows: "length (concat (map (icon_row d) ys)) = 128 * length ys"
  by (induction ys) (simp_all add: length_icon_row)

lemma length_placeholder: "length (placeholder n px) = length px + 4 * n"
  by (induction n arbitrary: px) simp_all

lemma bmp_to_rgba_cases:
  assumes "unpack_uint 4 (slice d 0 4) = Inr hs"
    and "unpack_i32 (slice d 4 8) = Inr w"
    and "unpack_i32 (slice d 8 12) = Inr h"
  shows "bmp_to_rgba d bc =
     (if w \<noteq> 32 \<or> \<bar>h\<bar> div 2 \<noteq> 32 then Inl DimensionMismatch
      else if bc = 32
        then (if 4136 \<le> length d
              then Inr (concat (map (icon_row d) (rev [0..<32])), [])
              else Inl IndexError)
        else Inr (concat (replicate 1024 [128, 128, 192, 255]), [NotFullySupported bc]))"
  using assms
  by (simp add: bmp_to_rgba_def or_raise_def rows32_all placeholder_eq Let_def)

lemma bmp_to_rgba_header_short:
  "length d < 12 \<Longrightarrow> bmp_to_rgba d bc = Inl TruncatedInput"
  by (auto simp: bmp_to_rgba_def or_raise_def unpack_uint_def unpack_i32_def slice_def
           split: sum.splits)

lemma bmp_header_readable:
  "12 \<le> length d \<Longrightarrow>
   \<exists>hs w h. unpack_uint 4 (slice d 0 4) = Inr hs \<and> unpack_i32 (slice d 4 8) = Inr w \<and>
     unpack_i32 (slice d 8 12) = Inr h"
  by (simp add: unpack_uint_def unpack_i32_def slice_def)

section \<open>The header and palette of a standalone bitmap\<close>

lemma and_then_read_i32:
  "and_then read_i32 g f =
     (if pos f + 4 \<le> length (buf f)
      then g (sfield (buf f) (pos f)) (f\<lparr>pos := pos f + 4\<rparr>)
      else Inl TruncatedInput)"
  by (auto simp: and_then_def read_i32_def read_def unpack_i32_def field_def sfield_def Let_def)

lemma take4_drop:
  "p + 4 \<le> length d \<Longrightarrow> take 4 (drop p d) = [d ! p, d ! (p + 1), d ! (p + 2), d ! (p + 3)]"
proof -
  assume len: "p + 4 \<le> length d"
  have "drop p d = d ! p # drop (Suc p) d"
    using len by (simp add: Cons_nth_drop_Suc)
  also have "drop (Suc p) d = d ! (p + 1) # drop (Suc (Suc p)) d"
    using len by (simp add: Cons_nth_drop_Suc)
  also have "drop (Suc (Suc p)) d = d ! (p + 2) # drop (Suc (Suc (Suc p))) d"
    using len by (simp add: Cons_nth_drop_Suc)
  also have "drop (Suc (Suc (Suc p))) d = d ! (p + 3) # drop (Suc (Suc (Suc (Suc p)))) d"
    using len by (simp add: Cons_nth_drop_Suc eval_nat_numeral)
  finally show ?thesis by (simp add: eval_nat_numeral)
qed

lemma read_palette_entry_ok:
  "pos f + 4 \<le> length (buf f) \<Longrightarrow>
   read_palette_entry f =
     Inr (palette_entry (uint (buf f ! pos f)) (uint (buf f ! (pos f + 1)))
            (uint (buf f ! (pos f + 2))), f\<lparr>pos := pos f + 4\<rparr>)"
  by (simp add: read_palette_entry_def read_def take4_drop)

lemma read_palette_entry_short:
  assumes "length (buf f) < pos f + 4"
  shows "read_palette_entry f = Inl TruncatedInput"
proof -
  have short: "length (take 4 (drop (pos f) (buf f))) < 4"
    using assms by simp
  have "\<And>xs g. length xs < 4 \<Longrightarrow>
          (case (xs, g) of
             ([b, g, r, rsv], f') \<Rightarrow> Inr (palette_entry (uint b) (uint g) (uint r), f')
           | (_, f') \<Rightarrow> Inl TruncatedInput) = Inl TruncatedInput"
    by (auto split: list.splits)
  from this [OF short] show ?thesis
    by (simp add: read_palette_entry_def read_def Let_def)
qed

lemma read_palette_ok:
  "pos f + 4 * n \<le> length (buf f) \<Longrightarrow>
   read_palette n f pal =
     Inr (pal @ palette_at (buf f) (pos f) n, f\<lparr>pos := pos f + 4 * n\<rparr>)"
proof (induction n arbitrary: f pal)
  case 0
  then show ?case by (simp add: palette_at_def)
next
  case (Suc n)
  let ?f' = "f\<lparr>pos := pos f + 4\<rparr>"
  let ?c = "palette_entry (uint (buf f ! pos f)) (uint (buf f ! (pos f + 1)))
              (uint (buf f ! (pos f + 2)))"
  have ih: "read_palette n ?f' (pal @ [?c]) =
     Inr ((pal @ [?c]) @ palette_at (buf ?f') (pos ?f') n, ?f'\<lparr>pos := pos ?f' + 4 * n\<rparr>)"
    using Suc.prems by (intro Suc.IH) simp
  have m: "palette_at (buf f) (pos f) (Suc n) = ?c # palette_at (buf f) (pos f + 4) n"
    unfolding palette_at_def
    by (simp add: upt_conv_Cons map_Suc_upt [symmetric] add.assoc add.left_commute del: upt_Suc)
  show ?case
    using Suc.prems ih by (simp add: read_palette_entry_ok m add.assoc)
qed

lemma read_palette_short:
  "0 < n \<Longrightarrow> length (buf f) < pos f + 4 * n \<Longrightarrow> read_palette n f pal = Inl TruncatedInput"
proof (induction n arbitrary: f pal)
  case 0
  then show ?case by simp
next
  case (Suc n)
  show ?case
  proof (cases "pos f + 4 \<le> length (buf f)")
    case True
    then have "0 < n" using Suc.prems by (cases n) simp_all
    then have "read_palette n (f\<lparr>pos := pos f + 4\<rparr>)
                 (pal @ [palette_entry (uint (buf f ! pos f)) (uint (buf f ! (pos f + 1)))
                           (uint (buf f ! (pos f + 2)))]) = Inl TruncatedInput"
      using Suc.prems by (intro Suc.IH) simp_all
    then show ?thesis using True by (simp add: read_palette_entry_ok)
  next
    case False
    then show ?thesis by (simp add: read_palette_entry_short)
  qed
qed

lemma and_then_read:
  "0 \<le> n \<Longrightarrow>
   and_then (read n) g f =
     g (take (nat n) (drop (pos f) (buf f)))
       (f\<lparr>pos := pos f + length (take (nat n) (drop (pos f) (buf f)))\<rparr>)"
  by (simp add: and_then_def read_def Let_def)

lemma read_bmp_header_cases:
  "read_bmp_header bmp =
     (if take 2 bmp \<noteq> [0x42, 0x4D] then Inl NotABitmap
      else if length bmp < 30 then Inl TruncatedInput
      else if field bmp 28 2 \<noteq> 4 then Inl UnsupportedDepth
      else if length bmp < 14 + nat (field bmp 14 4) + 64 then Inl TruncatedInput
      else Inr ((sfield bmp 18, sfield bmp 22, palette_at bmp (14 + nat (field bmp 14 4)) 16),
                \<lparr>buf = bmp, pos = nat (field bmp 10 4)\<rparr>))"
proof (cases "take 2 bmp \<noteq> [0x42, 0x4D]")
  case True
  then show ?thesis
    by (simp add: read_bmp_header_def and_then_read open_file_def slice_def)
next
  case magic: False
  show ?thesis
  proof (cases "length bmp < 14")
    case True
    then show ?thesis using magic
      by (auto simp: read_bmp_header_def and_then_read open_file_def slice_def
          or_raise_def unpack_uint_def)
  next
    case False
    then have l14: "14 \<le> length bmp" by simp
    have hdr: "\<And>g. and_then (read 14) g (open_file bmp) =
        g (take 14 bmp) \<lparr>buf = bmp, pos = 14\<rparr>"
      using l14 by (simp add: and_then_read open_file_def)
    have po: "unpack_uint 4 (slice (take 14 bmp) 10 14) = Inr (field bmp 10 4)"
      using l14 by (simp add: unpack_uint_def slice_def field_def take_drop)
    have sl: "slice (take 14 bmp) 0 2 = take 2 bmp"
      by (simp add: slice_def)
    have planes: "\<And>g f. and_then (read 2) g f =
        g (take 2 (drop (pos f) (buf f))) (f\<lparr>pos := pos f + length (take 2 (drop (pos f) (buf f)))\<rparr>)"
      by (simp add: and_then_read)
    show ?thesis
    proof (cases "length bmp < 30")
      case True
      then show ?thesis
        using magic l14
        by (auto simp: read_bmp_header_def hdr sl po or_raise_def and_then_read_uint
            and_then_read_i32 planes)
    next
      case False
      then have l30: "30 \<le> length bmp" by simp
      show ?thesis
      proof (cases "length bmp < 14 + nat (field bmp 14 4) + 64")
        case True
        then have "read_palette 16 \<lparr>buf = bmp, pos = 14 + nat (field bmp 14 4)\<rparr> [] =
                     Inl TruncatedInput"
          by (intro read_palette_short) simp_all
        then show ?thesis
          using magic l30 True
          by (simp add: read_bmp_header_def hdr sl po or_raise_def and_then_read_uint
              and_then_read_i32 planes seek_def field_nonneg nat_add_distrib)
      next
        case False
        then have "read_palette 16 \<lparr>buf = bmp, pos = 14 + nat (field bmp 14 4)\<rparr> [] =
            Inr ([] @ palette_at bmp (14 + nat (field bmp 14 4)) 16,
                 \<lparr>buf = bmp, pos = 14 + nat (field bmp 14 4) + 4 * 16\<rparr>)"
          by (subst read_palette_ok) simp_all
        then show ?thesis
          using magic l30 False
          by (simp add: read_bmp_header_def hdr sl po or_raise_def and_then_read_uint
              and_then_read_i32 planes seek_def field_nonneg nat_add_distrib)
      qed
    qed
  qed
qed

section \<open>The 4-bit row decoder\<close>

lemma and_15: "(k::int) AND 15 = k mod 16"
proof -
  have "(15::int) = mask 4" by (simp add: mask_eq_exp_minus_1)
  then have "k AND 15 = take_bit 4 k" by (simp add: take_bit_eq_mask)
  then show ?thesis by (simp add: take_bit_eq_mod)
qed

lemma high_nibble: "drop_bit 4 (uint (b::byte)) AND 15 = uint b div 16"
proof -
  have "0 \<le> uint b" "uint b < 256" using uint_bounded [of b] by simp_all
  then have "0 \<le> uint b div 16 \<and> uint b div 16 < 16" by presburger
  then show ?thesis by (simp add: and_15 drop_bit_eq_div)
qed

lemma high_nibble_mod: "drop_bit 4 (uint (b::byte)) mod 16 = uint b div 16"
  using high_nibble [of b] by (simp add: and_15)

lemma nibble_range: "0 \<le> nibble x (uint (b::byte)) \<and> nibble x (uint b) < 16"
proof -
  have "0 \<le> uint b" "uint b < 256" using uint_bounded [of b] by simp_all
  then have "0 \<le> uint b div 16 \<and> uint b div 16 < 16" by presburger
  then show ?thesis by (simp add: nibble_def)
qed

lemma pixel4_eq:
  assumes "length pal = 16"
  shows "pixel4 pal row x =
     (if x div 2 < length row then Inr (pixel_at pal row x) else Inl IndexError)"
proof (cases "x div 2 < length row")
  case True
  let ?v = "uint (row ! (x div 2))"
  have idx: "(if x mod 2 = 0 then drop_bit 4 ?v AND 15 else ?v AND 15) = nibble x ?v"
    by (simp add: nibble_def high_nibble_mod and_15 even_iff_mod_2_eq_zero)
  have r: "0 \<le> nibble x ?v" "nat (nibble x ?v) < 16"
    using nibble_range [of x "row ! (x div 2)"] by linarith+
  show ?thesis
    using True r assms
    by (simp add: pixel4_def Let_def idx or_raise_def index_def lookup_def pixel_at_def quad_def
        split: prod.splits)
next
  case False
  then show ?thesis by (simp add: pixel4_def or_raise_def index_def)
qed

lemma row4_eq:
  assumes "length pal = 16"
  shows "row4 pal row xs px =
     (if \<forall>x\<in>set xs. x div 2 < length row
      then Inr (px @ concat (map (pixel_at pal row) xs)) else Inl IndexError)"
  by (induction xs arbitrary: px) (simp_all add: pixel4_eq [OF assms])

lemma row4_upt:
  assumes "length pal = 16"
  shows "row4 pal row [0..<n] px =
     (if (n + 1) div 2 \<le> length row then Inr (px @ row_pixels pal row n) else Inl IndexError)"
proof -
  have "(\<forall>x\<in>set [0..<n]. x div 2 < length row) \<longleftrightarrow> (n + 1) div 2 \<le> length row"
  proof
    assume a: "\<forall>x\<in>set [0..<n]. x div 2 < length row"
    show "(n + 1) div 2 \<le> length row"
    proof (cases n)
      case 0
      then show ?thesis by simp
    next
      case (Suc m)
      then have "m div 2 < length row" using a by simp
      then show ?thesis using Suc by simp
    qed
  next
    assume a: "(n + 1) div 2 \<le> length row"
    show "\<forall>x\<in>set [0..<n]. x div 2 < length row"
    proof
      fix x assume "x \<in> set [0..<n]"
      then have "x + 1 \<le> n" by simp
      then have "x div 2 < (n + 1) div 2" by linarith
      then show "x div 2 < length row" using a by simp
    qed
  qed
  then show ?thesis
    unfolding row4_eq [OF assms] row_pixels_def by simp
qed

lemma row_pixels_cong:
  assumes "\<forall>k<(n + 1) div 2. row ! k = row' ! k"
  shows "row_pixels pal row n = row_pixels pal row' n"
proof -
  have "\<And>x. x < n \<Longrightarrow> x div 2 < (n + 1) div 2" by linarith
  then have "\<And>x. x < n \<Longrightarrow> pixel_at pal row x = pixel_at pal row' x"
    using assms by (simp add: pixel_at_def)
  then have "map (pixel_at pal row) [0..<n] = map (pixel_at pal row') [0..<n]"
    by (intro map_cong) simp_all
  then show ?thesis unfolding row_pixels_def by (rule arg_cong)
qed

lemma length_pixel_at: "length (pixel_at pal row x) = 4"
  by (cases "pal ! nat (nibble x (uint (row ! (x div 2))))") (simp add: pixel_at_def quad_def)

lemma length_row_pixels: "length (row_pixels pal row n) = 4 * n"
  by (simp add: row_pixels_def length_concat o_def length_pixel_at sum_list_triv)

lemma stored_row_shift: "stored_row d q rs (Suc i) = stored_row d (q + rs) rs i"
  by (simp add: stored_row_def add.assoc add.commute)

lemma image_pixels_Suc:
  "image_pixels pal d q rs n (Suc m) =
     row_pixels pal (stored_row d q rs 0) n @ image_pixels pal d (q + rs) rs n m"
proof -
  have "map (\<lambda>i. row_pixels pal (stored_row d q rs i) n) [0..<Suc m] =
        row_pixels pal (stored_row d q rs 0) n #
        map (\<lambda>i. row_pixels pal (stored_row d (q + rs) rs i) n) [0..<m]"
    by (simp add: upt_conv_Cons map_Suc_upt [symmetric] stored_row_shift del: upt_Suc)
  then show ?thesis by (simp add: image_pixels_def)
qed

lemma rows_present_Suc:
  "rows_present d q rs n (Suc m) \<longleftrightarrow>
     (n + 1) div 2 \<le> length (stored_row d q rs 0) \<and> rows_present d (q + rs) rs n m"
proof -
  have "(\<forall>i<Suc m. (n + 1) div 2 \<le> length (stored_row d q rs i)) \<longleftrightarrow>
        (n + 1) div 2 \<le> length (stored_row d q rs 0) \<and>
        (\<forall>i<m. (n + 1) div 2 \<le> length (stored_row d q rs (Suc i)))"
    by (rule All_less_Suc2)
  then show ?thesis by (simp add: rows_present_def stored_row_shift)
qed

lemma stored_row_cong:
  "\<forall>k. drop (p + k) d = drop (q + k) d \<Longrightarrow> stored_row d p rs i = stored_row d q rs i"
  by (simp add: stored_row_def)

lemma drop_after_read:
  assumes "\<forall>k. drop (p + k) d = drop (q + k) d"
  shows "drop (p + length (take rs (drop p d)) + k) d = drop (q + rs + k) d"
proof (cases "rs \<le> length d - p")
  case True
  then show ?thesis using assms by (simp add: add.assoc min_def)
next
  case False
  have pq: "drop p d = drop q d" using assms [rule_format, of 0] by simp
  then have "length d - p = length d - q" by (metis length_drop)
  then show ?thesis using False by (simp add: min_def)
qed

lemma rows4_eq:
  assumes pal: "length pal = 16" and rs: "0 \<le> rs"
    and same: "\<forall>k. drop (pos f + k) (buf f) = drop (q + k) (buf f)"
  shows "if rows_present (buf f) q (nat rs) (nat w) (length ys)
         then \<exists>f'. rows4 pal w rs ys f px =
                Inr (px @ image_pixels pal (buf f) q (nat rs) (nat w) (length ys), f') \<and>
                buf f' = buf f
         else rows4 pal w rs ys f px = Inl IndexError"
  using same
proof (induction ys arbitrary: f px q)
  case Nil
  then show ?case by (simp add: image_pixels_def rows_present_def)
next
  case (Cons y ys)
  define row where "row = take (nat rs) (drop (pos f) (buf f))"
  define f1 where "f1 = f\<lparr>pos := pos f + length row\<rparr>"
  define px1 where "px1 = px @ row_pixels pal row (nat w)"
  have rd: "read rs f = Inr (row, f1)"
    using rs by (simp add: read_def Let_def row_def f1_def)
  have row: "stored_row (buf f) q (nat rs) 0 = row"
    using Cons.prems [rule_format, of 0] by (simp add: stored_row_def row_def)
  have b1: "buf f1 = buf f" by (simp add: f1_def)
  have "\<forall>k. drop (pos f1 + k) (buf f1) = drop (q + nat rs + k) (buf f1)"
    using drop_after_read [OF Cons.prems] by (simp add: f1_def row_def)
  note ih = Cons.IH [OF this, of px1, unfolded b1]
  have len: "length (y # ys) = Suc (length ys)" by simp
  show ?case
  proof (cases "(nat w + 1) div 2 \<le> length row")
    case True
    then have r4: "row4 pal row [0..<nat w] px = Inr px1"
      by (simp add: row4_upt [OF pal] px1_def)
    have step: "rows4 pal w rs (y # ys) f px = rows4 pal w rs ys f1 px1"
      by (simp add: rd r4)
    show ?thesis
    proof (cases "rows_present (buf f) (q + nat rs) (nat rs) (nat w) (length ys)")
      case present: True
      then obtain f' where
        "rows4 pal w rs ys f1 px1 =
           Inr (px1 @ image_pixels pal (buf f) (q + nat rs) (nat rs) (nat w) (length ys), f')"
        and "buf f' = buf f"
        using ih by auto
      then show ?thesis
        unfolding len rows_present_Suc image_pixels_Suc row step
        using True present by (auto simp: px1_def)
    next
      case absent: False
      then have "rows4 pal w rs ys f1 px1 = Inl IndexError"
        using ih by simp
      then show ?thesis
        unfolding len rows_present_Suc row step using absent by simp
    qed
  next
    case False
    then have r4: "row4 pal row [0..<nat w] px = Inl IndexError"
      by (simp add: row4_upt [OF pal])
    have "rows4 pal w rs (y # ys) f px = Inl IndexError"
      by (simp add: rd r4)
    then show ?thesis
      unfolding len rows_present_Suc row using False by simp
  qed
qed

lemma read_bmp_header_ok:
  "bmp_header_ok bmp \<Longrightarrow>
   read_bmp_header bmp =
     Inr ((sfield bmp 18, sfield bmp 22, palette_at bmp (14 + nat (field bmp 14 4)) 16),
          \<lparr>buf = bmp, pos = nat (field bmp 10 4)\<rparr>)"
  by (simp add: read_bmp_header_cases bmp_header_ok_def)

lemma read_bmp_header_Inr:
  "read_bmp_header bmp = Inr r \<Longrightarrow> bmp_header_ok bmp"
  by (simp add: read_bmp_header_cases bmp_header_ok_def split: if_splits)

lemma rows4_no_width:
  "nat w = 0 \<Longrightarrow> - 1 \<le> rs \<Longrightarrow> \<exists>f'. rows4 pal w rs ys f px = Inr (px, f')"
  by (induction ys arbitrary: f px) (simp_all add: read_def Let_def)

lemma rows4_bad_size:
  "rs < - 1 \<Longrightarrow> ys \<noteq> [] \<Longrightarrow> rows4 pal w rs ys f px = Inl InvalidReadSize"
  by (cases ys) (simp_all add: read_def)

lemma rows4_no_rows: "rows4 pal w rs [] f px = Inr (px, f)"
  by simp

lemma image_pixels_no_width: "image_pixels pal d q rs 0 m = []"
  by (simp add: image_pixels_def row_pixels_def)

lemma rows_present_no_width: "rows_present d q rs 0 m"
  by (simp add: rows_present_def)

lemma length_rows_list: "length (rev [0..h - 1]) = nat h"
  by simp

lemma row_size_nonneg: "0 \<le> w \<Longrightarrow> 0 \<le> row_size w"
  by (simp add: row_size_def)

lemma rows_list_empty: "rev [0..h - 1] = [] \<longleftrightarrow> h \<le> 0"
proof -
  have "length (rev [0..h - 1]) = nat h" by simp
  then show ?thesis by (metis length_0_conv nat_le_0 nat_0_iff)
qed

lemma read_bmp_4bit_cases:
  "read_bmp_4bit bmp =
     (case read_bmp_header bmp of
        Inl e \<Rightarrow> Inl e
      | Inr _ \<Rightarrow>
          if row_size (sfield bmp 18) < - 1 \<and> 0 < sfield bmp 22 then Inl InvalidReadSize
          else if bmp_rows_present bmp then Inr (sfield bmp 18, sfield bmp 22, bmp_pixels bmp)
          else Inl IndexError)"
proof (cases "read_bmp_header bmp")
  case (Inl e)
  then show ?thesis by (simp add: read_bmp_4bit_def)
next
  case (Inr r)
  define w where "w = sfield bmp 18"
  define h where "h = sfield bmp 22"
  define pal where "pal = palette_at bmp (14 + nat (field bmp 14 4)) 16"
  define f where "f = \<lparr>buf = bmp, pos = nat (field bmp 10 4)\<rparr>"
  have hdr: "read_bmp_header bmp = Inr ((w, h, pal), f)"
    using read_bmp_header_ok [OF read_bmp_header_Inr [OF Inr]]
    by (simp add: w_def h_def pal_def f_def)
  have pal: "length pal = 16" by (simp add: pal_def palette_at_def)
  have unf: "read_bmp_4bit bmp =
      (case rows4 pal w (row_size w) (rev [0..h - 1]) f [] of
         Inl e \<Rightarrow> Inl e | Inr (pixels, f') \<Rightarrow> Inr (w, h, pixels))"
    by (simp add: read_bmp_4bit_def hdr)
  show ?thesis
  proof (cases "0 < w")
    case True
    then have rs: "0 \<le> row_size w" by (simp add: row_size_nonneg)
    have same: "\<forall>k. drop (pos f + k) (buf f) = drop (nat (field bmp 10 4) + k) (buf f)"
      by (simp add: f_def)
    note r4 = rows4_eq [OF pal rs same, of w "rev [0..h - 1]" "[]", unfolded length_rows_list]
    have bf: "buf f = bmp" by (simp add: f_def)
    show ?thesis
    proof (cases "bmp_rows_present bmp")
      case present: True
      then obtain f' where "rows4 pal w (row_size w) (rev [0..h - 1]) f [] =
          Inr ([] @ image_pixels pal bmp (nat (field bmp 10 4)) (nat (row_size w)) (nat w) (nat h), f')"
        using r4 unfolding bf bmp_rows_present_def w_def [symmetric] h_def [symmetric] by auto
      then show ?thesis
        unfolding unf using present rs
        by (simp add: hdr bmp_pixels_def w_def h_def pal_def)
    next
      case absent: False
      then have "rows4 pal w (row_size w) (rev [0..h - 1]) f [] = Inl IndexError"
        using r4 unfolding bf bmp_rows_present_def w_def [symmetric] h_def [symmetric] by simp
      then show ?thesis
        unfolding unf using absent rs by (simp add: hdr w_def)
    qed
  next
    case False
    then have n: "nat w = 0" by simp
    have present: "bmp_rows_present bmp"
      using n by (simp add: bmp_rows_present_def w_def [symmetric] rows_present_no_width)
    have empty: "bmp_pixels bmp = []"
      using n by (simp add: bmp_pixels_def w_def [symmetric] image_pixels_no_width)
    show ?thesis
    proof (cases "row_size w < - 1 \<and> 0 < h")
      case True
      then have "rev [0..h - 1] \<noteq> []" by (simp add: rows_list_empty)
      then have "rows4 pal w (row_size w) (rev [0..h - 1]) f [] = Inl InvalidReadSize"
        using True by (intro rows4_bad_size) simp_all
      then show ?thesis
        unfolding unf using True by (simp add: hdr w_def h_def)
    next
      case False
      have "\<exists>f'. rows4 pal w (row_size w) (rev [0..h - 1]) f [] = Inr ([], f')"
      proof (cases "h \<le> 0")
        case True
        then have "rev [0..h - 1] = []" by (simp add: rows_list_empty)
        then show ?thesis by simp
      next
        case pos: False
        then have "- 1 \<le> row_size w" using False by simp
        then show ?thesis by (rule rows4_no_width [OF n])
      qed
      then obtain f' where "rows4 pal w (row_size w) (rev [0..h - 1]) f [] = Inr ([], f')"
        by blast
      then show ?thesis
        unfolding unf using False present empty by (simp add: hdr w_def h_def)
    qed
  qed
qed

lemma length_image_pixels: "length (image_pixels pal d q rs n m) = 4 * n * m"
  by (simp add: image_pixels_def length_concat o_def length_row_pixels sum_list_triv)

section \<open>The claims about the decoders\<close>

text \<open>
  Claim C5. A palette entry read as the four bytes blue, green, red, reserved is decoded
  to (red, green, blue, alpha) with alpha 0 when red > 200, blue > 200 and green < 50, and
  alpha 255 otherwise; (red 255, green 0, blue 255) gets alpha 0 and (red 255, green 0,
  blue 0) gets alpha 255.
\<close>

theorem palette_color_key:
  "read_palette_entry \<lparr>buf = [b, g, r, x], pos = 0\<rparr> =
     Inr ((uint r, uint g, uint b,
           if uint r > 200 \<and> uint b > 200 \<and> uint g < 50 then 0 else 255),
          \<lparr>buf = [b, g, r, x], pos = 4\<rparr>) \<and>
   palette_entry 255 0 255 = (255, 0, 255, 0) \<and>
   palette_entry 0 0 255 = (255, 0, 0, 255)"
  using read_palette_entry_ok [of "\<lparr>buf = [b, g, r, x], pos = 0\<rparr>"]
  by (simp add: palette_entry_def)

text \<open>
  Claim C6. On the icon path the true height is |declared height| div 2, and
  \<open>bmp_to_rgba\<close> fails with \<open>DimensionMismatch\<close> exactly when the width of the
  sub-header is not 32 or the true height is not 32; the conversion of a container takes
  its geometry from the sub-header of the selected region, not from the descriptor.
\<close>

theorem icon_geometry_check:
  assumes "unpack_uint 4 (slice d 0 4) = Inr hs"
    and "unpack_i32 (slice d 4 8) = Inr w"
    and "unpack_i32 (slice d 8 12) = Inr h"
  shows "(w \<noteq> 32 \<or> \<bar>h\<bar> div 2 \<noteq> 32 \<longrightarrow> bmp_to_rgba d bc = Inl DimensionMismatch) \<and>
         (w = 32 \<and> \<bar>h\<bar> div 2 = 32 \<longrightarrow> bmp_to_rgba d bc \<noteq> Inl DimensionMismatch) \<and>
         (parse_ico ico = Inr (d, bc) \<and> (w \<noteq> 32 \<or> \<bar>h\<bar> div 2 \<noteq> 32) \<longrightarrow>
            convert_icon ico = Inl DimensionMismatch)"
  by (simp add: bmp_to_rgba_cases [OF assms] convert_icon_def)

text \<open>
  A sub-header of width 16 is refused although its descriptor says 32 by 32; a declared
  height of 64 with width 32 passes the check.
\<close>

theorem icon_geometry_check_witness:
  "bmp_to_rgba (icon_header 16 32) 32 = Inl DimensionMismatch \<and>
   bmp_to_rgba (icon_header 32 64) 8 \<noteq> Inl DimensionMismatch \<and>
   convert_icon ([0, 0, 1, 0, 1, 0, 32, 32, 0, 0, 1, 0, 32, 0, 12, 0, 0, 0, 22, 0, 0, 0] @
                 icon_header 16 32) = Inl DimensionMismatch"
proof -
  let ?ico = "[0, 0, 1, 0, 1, 0, 32, 32, 0, 0, 1, 0, 32, 0, 12, 0, 0, 0, 22, 0, 0, 0] @
              icon_header 16 32"
  have a: "unpack_uint 4 (slice (icon_header 16 32) 0 4) = Inr 40"
    "unpack_i32 (slice (icon_header 16 32) 4 8) = Inr 16"
    "unpack_i32 (slice (icon_header 16 32) 8 12) = Inr 32"
    by (simp_all add: icon_header_def slice_def unpack_uint_def unpack_i32_def)
  have b: "unpack_uint 4 (slice (icon_header 32 64) 0 4) = Inr 40"
    "unpack_i32 (slice (icon_header 32 64) 4 8) = Inr 32"
    "unpack_i32 (slice (icon_header 32 64) 8 12) = Inr 64"
    by (simp_all add: icon_header_def slice_def unpack_uint_def unpack_i32_def)
  have p: "parse_ico ?ico = Inr (icon_header 16 32, 32)"
    by code_simp
  show ?thesis
    using icon_geometry_check [OF a, of 32 ?ico] icon_geometry_check [OF b, of 8 "[]"] p
    by simp
qed

lemma bmp_sub_header:
  assumes "12 \<le> length d"
  shows "unpack_uint 4 (slice d 0 4) = Inr (field d 0 4)"
    and "unpack_i32 (slice d 4 8) = Inr (sfield d 4)"
    and "unpack_i32 (slice d 8 12) = Inr (sfield d 8)"
  using assms by (simp_all add: unpack_uint_def unpack_i32_def slice_def field_def sfield_def)

text \<open>
  Claim C7 as stated fails on the icon path: the sub-header is read and its geometry is
  checked before the bit count is looked at, so a selected descriptor of bit count 8 over
  a sub-header of width 16 gives \<open>DimensionMismatch\<close>, not the placeholder.
\<close>

theorem unsupported_depth_counterexample:
  "parse_ico ([0, 0, 1, 0, 1, 0, 32, 32, 0, 0, 1, 0, 8, 0, 12, 0, 0, 0, 22, 0, 0, 0] @
              icon_header 16 32) = Inr (icon_header 16 32, 8) \<and>
   convert_icon ([0, 0, 1, 0, 1, 0, 32, 32, 0, 0, 1, 0, 8, 0, 12, 0, 0, 0, 22, 0, 0, 0] @
                 icon_header 16 32) = Inl DimensionMismatch"
proof -
  let ?ico = "[0, 0, 1, 0, 1, 0, 32, 32, 0, 0, 1, 0, 8, 0, 12, 0, 0, 0, 22, 0, 0, 0] @
              icon_header 16 32"
  have p: "parse_ico ?ico = Inr (icon_header 16 32, 8)" by code_simp
  have l: "12 \<le> length (icon_header 16 32)" by (simp add: icon_header_def)
  have w: "sfield (icon_header 16 32) 4 = 16" by code_simp
  have "bmp_to_rgba (icon_header 16 32) 8 = Inl DimensionMismatch"
    unfolding bmp_to_rgba_cases [OF bmp_sub_header [OF l]] by (simp add: w)
  then show ?thesis using p by (simp add: convert_icon_def)
qed

text \<open>
  Claim C7, amended. On the icon path with a bit count other than 32, \<open>bmp_to_rgba\<close>
  fails with \<open>TruncatedInput\<close> when the 12-byte sub-header is cut and with
  \<open>DimensionMismatch\<close> when its width is not 32 or its true height is not 32; in every
  other case it returns, without an error, the 32 by 32 placeholder filled with
  (128, 128, 192, 255) and the warning, and no pixel of the bitmap is decoded. On the
  standalone path a bit count other than 4 is the error \<open>UnsupportedDepth\<close>.
\<close>

theorem unsupported_depth:
  "(bc \<noteq> 32 \<longrightarrow>
      bmp_to_rgba d bc =
        (if length d < 12 then Inl TruncatedInput
         else if sfield d 4 \<noteq> 32 \<or> \<bar>sfield d 8\<bar> div 2 \<noteq> 32 then Inl DimensionMismatch
         else Inr (concat (replicate (32 * 32) [128, 128, 192, 255]),
                   [NotFullySupported bc]))) \<and>
   (take 2 bmp = [0x42, 0x4D] \<and> 30 \<le> length bmp \<and> field bmp 28 2 \<noteq> 4 \<longrightarrow>
      read_bmp_4bit bmp = Inl UnsupportedDepth)"
proof (intro conjI impI)
  assume bc: "bc \<noteq> 32"
  show "bmp_to_rgba d bc =
        (if length d < 12 then Inl TruncatedInput
         else if sfield d 4 \<noteq> 32 \<or> \<bar>sfield d 8\<bar> div 2 \<noteq> 32 then Inl DimensionMismatch
         else Inr (concat (replicate (32 * 32) [128, 128, 192, 255]),
                   [NotFullySupported bc]))"
  proof (cases "length d < 12")
    case True
    then show ?thesis by (simp add: bmp_to_rgba_header_short)
  next
    case False
    then have l: "12 \<le> length d" by simp
    show ?thesis
      unfolding bmp_to_rgba_cases [OF bmp_sub_header [OF l]] using bc False by simp
  qed
next
  assume "take 2 bmp = [0x42, 0x4D] \<and> 30 \<le> length bmp \<and> field bmp 28 2 \<noteq> 4"
  then have "read_bmp_header bmp = Inl UnsupportedDepth"
    by (simp add: read_bmp_header_cases)
  then show "read_bmp_4bit bmp = Inl UnsupportedDepth"
    by (simp add: read_bmp_4bit_def)
qed

text \<open>
  An 8-bit icon bitmap with an accepted sub-header gives the placeholder, one whose
  sub-header is cut or 16 wide gives the error, and a standalone bitmap of bit count 8 is
  refused.
\<close>

theorem unsupported_depth_witness:
  "bmp_to_rgba (icon_header 32 64) 8 =
     Inr (concat (replicate (32 * 32) [128, 128, 192, 255]), [NotFullySupported 8]) \<and>
   bmp_to_rgba (icon_header 16 32) 8 = Inl DimensionMismatch \<and>
   bmp_to_rgba [40, 0, 0, 0] 8 = Inl TruncatedInput \<and>
   read_bmp_4bit ([0x42, 0x4D] @ replicate 26 0 @ [8, 0]) = Inl UnsupportedDepth"
proof -
  let ?bmp = "[0x42, 0x4D] @ replicate 26 0 @ [8, 0]"
  have g: "sfield (icon_header 32 64) 4 = 32" "sfield (icon_header 32 64) 8 = 64"
    "sfield (icon_header 16 32) 4 = 16" "length (icon_header 32 64) = 12"
    "length (icon_header 16 32) = 12"
    by (simp_all add: icon_header_def sfield_def field_def)
  have f: "field ?bmp 28 2 = 8"
    by (simp add: field_def)
  have a: "bmp_to_rgba (icon_header 32 64) 8 =
     Inr (concat (replicate (32 * 32) [128, 128, 192, 255]), [NotFullySupported 8])"
    using unsupported_depth [of 8 "icon_header 32 64" ?bmp] by (simp add: g)
  have b: "bmp_to_rgba (icon_header 16 32) 8 = Inl DimensionMismatch"
    using unsupported_depth [of 8 "icon_header 16 32" ?bmp] by (simp add: g)
  have c: "bmp_to_rgba [40, 0, 0, 0] 8 = Inl TruncatedInput"
    using unsupported_depth [of 8 "[40, 0, 0, 0]" ?bmp] by simp
  have d: "read_bmp_4bit ?bmp = Inl UnsupportedDepth"
    using unsupported_depth [of 8 "[]" ?bmp] f by simp
  show ?thesis using a b c d by (intro conjI)
qed

lemma bmp_to_rgba_length:
  assumes "bmp_to_rgba d bc = Inr (px, ws)"
  shows "length px = 32 * 32 * 4"
proof -
  have "12 \<le> length d"
    using assms bmp_to_rgba_header_short [of d bc] by (cases "length d < 12") simp_all
  then obtain hs w h where hdr: "unpack_uint 4 (slice d 0 4) = Inr hs"
    "unpack_i32 (slice d 4 8) = Inr w" "unpack_i32 (slice d 8 12) = Inr h"
    using bmp_header_readable by blast
  have "px = concat (map (icon_row d) (rev [0..<32])) \<or>
        px = concat (replicate 1024 [128, 128, 192, 255])"
    using assms unfolding bmp_to_rgba_cases [OF hdr] by (auto split: if_splits)
  then show ?thesis
  proof
    assume "px = concat (map (icon_row d) (rev [0..<32]))"
    then have "length px = 128 * length (rev [0..<32])"
      by (simp only: length_icon_rows)
    then show ?thesis by simp
  next
    assume "px = concat (replicate 1024 [128, 128, 192, 255])"
    then have "px = placeholder 1024 []" by (simp add: placeholder_eq)
    then show ?thesis by (simp add: length_placeholder)
  qed
qed

lemma read_bmp_4bit_Inr:
  assumes "read_bmp_4bit bmp = Inr (w, h, px)"
  shows "w = sfield bmp 18 \<and> h = sfield bmp 22 \<and> px = bmp_pixels bmp \<and> bmp_header_ok bmp \<and>
         bmp_rows_present bmp"
proof (cases "read_bmp_header bmp")
  case (Inl e)
  then show ?thesis using assms by (simp add: read_bmp_4bit_cases)
next
  case (Inr r)
  then have "bmp_header_ok bmp" by (rule read_bmp_header_Inr)
  then show ?thesis
    using assms Inr by (simp add: read_bmp_4bit_cases split: if_splits)
qed

lemma length_bmp_pixels:
  "int (length (bmp_pixels bmp)) = max (sfield bmp 18) 0 * max (sfield bmp 22) 0 * 4"
proof -
  have "length (bmp_pixels bmp) = 4 * nat (sfield bmp 18) * nat (sfield bmp 22)"
    by (simp add: bmp_pixels_def length_image_pixels)
  then show ?thesis by (simp add: max_def)
qed

text \<open>
  Claim C2 as stated fails on the standalone path for a negative declared height: the
  bitmap of width 2 and height -1 is returned with no pixels, not with 2 * (-1) * 4.
\<close>

theorem decoded_length_counterexample:
  "read_bmp_4bit (tiny_bmp 2 255 255 []) = Inr (2, - 1, []) \<and>
   int (length ([] :: int list)) \<noteq> 2 * (- 1) * 4"
proof -
  have "read_bmp_4bit (tiny_bmp 2 255 255 []) = Inr (2, - 1, [])" by code_simp
  then show ?thesis by simp
qed

text \<open>
  Claim C2, amended. Every pixel sequence returned by \<open>bmp_to_rgba\<close> (32-bit path and
  placeholder path) has length 32 * 32 * 4; the sequence returned by \<open>read_bmp_4bit\<close>
  with width \<open>w\<close> and height \<open>h\<close> has length max(w, 0) * max(h, 0) * 4, which is
  w * h * 4 whenever neither is negative.
\<close>

theorem decoded_length:
  "(bmp_to_rgba d bc = Inr (px, ws) \<longrightarrow> length px = 32 * 32 * 4) \<and>
   (read_bmp_4bit bmp = Inr (w, h, px') \<longrightarrow>
      int (length px') = max w 0 * max h 0 * 4 \<and>
      (0 \<le> w \<and> 0 \<le> h \<longrightarrow> int (length px') = w * h * 4))"
proof (intro conjI impI)
  assume "bmp_to_rgba d bc = Inr (px, ws)"
  then show "length px = 32 * 32 * 4" by (rule bmp_to_rgba_length)
next
  assume "read_bmp_4bit bmp = Inr (w, h, px')"
  then have e: "w = sfield bmp 18" "h = sfield bmp 22" "px' = bmp_pixels bmp"
    using read_bmp_4bit_Inr by blast+
  show l: "int (length px') = max w 0 * max h 0 * 4"
    unfolding e by (rule length_bmp_pixels)
  assume "0 \<le> w \<and> 0 \<le> h"
  then show "int (length px') = w * h * 4" using l by (simp add: max_def)
qed

theorem decoded_length_witness:
  "bmp_to_rgba (icon_header 32 64 @ replicate 4124 0) 32 =
     Inr (concat (map (icon_row (icon_header 32 64 @ replicate 4124 0)) (rev [0..<32])), []) \<and>
   length (concat (map (icon_row (icon_header 32 64 @ replicate 4124 0)) (rev [0..<32]))) =
     32 * 32 * 4 \<and>
   bmp_to_rgba (icon_header 32 64) 8 =
     Inr (concat (replicate 1024 [128, 128, 192, 255]), [NotFullySupported 8]) \<and>
   length (concat (replicate 1024 [128, 128, 192, 255 :: int])) = 32 * 32 * 4 \<and>
   read_bmp_4bit (tiny_bmp 3 2 0 [0x12, 0x3F, 0xAA, 0xBB, 0x45, 0x6F, 0xCC, 0xDD]) =
     Inr (3, 2, [33, 17, 1, 255, 34, 18, 2, 255, 35, 19, 3, 255,
                 36, 20, 4, 255, 37, 21, 5, 255, 38, 22, 6, 255]) \<and>
   int (length [33, 17, 1, 255, 34, 18, 2, 255, 35, 19, 3, 255,
                36, 20, 4, 255, 37, 21, 5, 255, 38, 22, 6, 255 :: int]) = 3 * 2 * 4"
proof -
  let ?d = "icon_header 32 64 @ replicate 4124 0"
  let ?px = "concat (map (icon_row ?d) (rev [0..<32]))"
  let ?bmp = "tiny_bmp 3 2 0 [0x12, 0x3F, 0xAA, 0xBB, 0x45, 0x6F, 0xCC, 0xDD]"
  let ?out = "[33, 17, 1, 255, 34, 18, 2, 255, 35, 19, 3, 255,
               36, 20, 4, 255, 37, 21, 5, 255, 38, 22, 6, 255 :: int]"
  have h: "unpack_uint 4 (slice ?d 0 4) = Inr 40" "unpack_i32 (slice ?d 4 8) = Inr 32"
    "unpack_i32 (slice ?d 8 12) = Inr 64"
    by (simp_all add: icon_header_def slice_def unpack_uint_def unpack_i32_def)
  have l: "length ?d = 4136" by (simp add: icon_header_def)
  have a: "bmp_to_rgba ?d 32 = Inr (?px, [])"
    unfolding bmp_to_rgba_cases [OF h] l by simp
  have h8: "unpack_uint 4 (slice (icon_header 32 64) 0 4) = Inr 40"
    "unpack_i32 (slice (icon_header 32 64) 4 8) = Inr 32"
    "unpack_i32 (slice (icon_header 32 64) 8 12) = Inr 64"
    by (simp_all add: icon_header_def slice_def unpack_uint_def unpack_i32_def)
  have b: "bmp_to_rgba (icon_header 32 64) 8 =
     Inr (concat (replicate 1024 [128, 128, 192, 255]), [NotFullySupported 8])"
    unfolding bmp_to_rgba_cases [OF h8] by simp
  have c: "read_bmp_4bit ?bmp = Inr (3, 2, ?out)" by code_simp
  from decoded_length [of ?d 32 ?px "[]" ?bmp 3 2 ?out] a c
  have "length ?px = 32 * 32 * 4" "int (length ?out) = 3 * 2 * 4" by simp_all
  moreover from decoded_length [of "icon_header 32 64" 8 "concat (replicate 1024 [128, 128, 192, 255])"
      "[NotFullySupported 8]" ?bmp 3 2 ?out] b
  have "length (concat (replicate 1024 [128, 128, 192, 255 :: int])) = 32 * 32 * 4" by simp
  ultimately show ?thesis using a b c by (intro conjI)
qed



lemma div32_bounds: "(a + 31) div 32 * 32 - 32 < a \<and> a \<le> (a + 31) div 32 * (32::int)"
proof -
  have "(a + 31) div 32 * 32 + (a + 31) mod 32 = a + 31" by simp
  moreover have "0 \<le> (a + 31) mod 32" "(a + 31) mod 32 < 32" by simp_all
  ultimately show ?thesis by linarith
qed

lemma ceiling_div32: "\<lceil>of_int a / (32::real)\<rceil> = (a + 31) div 32"
proof (rule ceiling_unique)
  have "of_int ((a + 31) div 32 * 32 - 32) < (of_int a :: real)"
    using div32_bounds [of a] by (simp only: of_int_less_iff)
  then show "of_int ((a + 31) div 32) - 1 < of_int a / (32::real)" by simp
  have "(of_int a :: real) \<le> of_int ((a + 31) div 32 * 32)"
    using div32_bounds [of a] by (simp only: of_int_le_iff)
  then show "of_int a / (32::real) \<le> of_int ((a + 31) div 32)" by simp
qed

lemma row_size_ceiling: "row_size w = \<lceil>of_int (w * 4) / (32::real)\<rceil> * 4"
  unfolding ceiling_div32 by (simp add: row_size_def)

lemma row4_ignores_padding:
  assumes "length pal = 16" and "length bs = (n + 1) div 2"
  shows "row4 pal (bs @ pad) [0..<n] acc = row4 pal (bs @ pad') [0..<n] acc"
proof -
  have "row_pixels pal (bs @ pad) n = row_pixels pal (bs @ pad') n"
    using assms(2) by (intro row_pixels_cong) (simp add: nth_append)
  then show ?thesis
    using assms(2) by (simp add: row4_upt [OF assms(1)])
qed

lemma pixel4_nibbles:
  assumes "length pal = 16" and "x div 2 < length row"
  shows "pixel4 pal row x =
     Inr (quad (pal ! nat (if even x then uint (row ! (x div 2)) div 16
                           else uint (row ! (x div 2)) mod 16)))"
  using assms(2) by (simp add: pixel4_eq [OF assms(1)] pixel_at_def nibble_def)

text \<open>
  Claim C4. The row size is ceil(width * 4 / 32) * 4; what \<open>read_bmp_4bit\<close> returns is
  the decoding of the stored rows taken at that stride; the bytes of a row after the
  first ceil(width / 2) have no influence on its pixels; pixel \<open>x\<close> is the palette entry
  of the high nibble of byte \<open>x div 2\<close> for even \<open>x\<close> and of its low nibble for odd \<open>x\<close>;
  the byte 0x3F gives palette entries 3 and 15.
\<close>

theorem four_bit_rows:
  "row_size w = \<lceil>of_int (w * 4) / (32::real)\<rceil> * 4 \<and>
   (read_bmp_4bit bmp = Inr (w', h', px) \<longrightarrow>
      w' = sfield bmp 18 \<and> h' = sfield bmp 22 \<and> px = bmp_pixels bmp) \<and>
   (length pal = 16 \<and> length bs = (n + 1) div 2 \<longrightarrow>
      row4 pal (bs @ pad) [0..<n] acc = row4 pal (bs @ pad') [0..<n] acc) \<and>
   (length pal = 16 \<and> x div 2 < length row \<longrightarrow>
      pixel4 pal row x =
        Inr (quad (pal ! nat (if even x then uint (row ! (x div 2)) div 16
                              else uint (row ! (x div 2)) mod 16)))) \<and>
   (length pal = 16 \<longrightarrow>
      pixel4 pal [0x3F] 0 = Inr (quad (pal ! 3)) \<and> pixel4 pal [0x3F] 1 = Inr (quad (pal ! 15)))"
proof (intro conjI impI)
  show "row_size w = \<lceil>of_int (w * 4) / (32::real)\<rceil> * 4" by (rule row_size_ceiling)
next
  assume r: "read_bmp_4bit bmp = Inr (w', h', px)"
  show "w' = sfield bmp 18" "h' = sfield bmp 22" "px = bmp_pixels bmp"
    using read_bmp_4bit_Inr [OF r] by simp_all
next
  assume "length pal = 16 \<and> length bs = (n + 1) div 2"
  then show "row4 pal (bs @ pad) [0..<n] acc = row4 pal (bs @ pad') [0..<n] acc"
    by (simp add: row4_ignores_padding)
next
  assume "length pal = 16 \<and> x div 2 < length row"
  then show "pixel4 pal row x =
        Inr (quad (pal ! nat (if even x then uint (row ! (x div 2)) div 16
                              else uint (row ! (x div 2)) mod 16)))"
    by (simp add: pixel4_nibbles)
next
  assume p: "length pal = 16"
  show "pixel4 pal [0x3F] 0 = Inr (quad (pal ! 3))"
    using pixel4_nibbles [OF p, of 0 "[0x3F]"] by simp
  show "pixel4 pal [0x3F] 1 = Inr (quad (pal ! 15))"
    using pixel4_nibbles [OF p, of 1 "[0x3F]"] by simp
qed

theorem four_bit_rows_witness:
  "row_size 3 = 4 \<and>
   read_bmp_4bit (tiny_bmp 3 2 0 [0x12, 0x3F, 0xAA, 0xBB, 0x45, 0x6F, 0xCC, 0xDD]) =
     Inr (3, 2, bmp_pixels (tiny_bmp 3 2 0 [0x12, 0x3F, 0xAA, 0xBB, 0x45, 0x6F, 0xCC, 0xDD])) \<and>
   bmp_pixels (tiny_bmp 3 2 0 [0x12, 0x3F, 0xAA, 0xBB, 0x45, 0x6F, 0xCC, 0xDD]) =
     [33, 17, 1, 255, 34, 18, 2, 255, 35, 19, 3, 255,
      36, 20, 4, 255, 37, 21, 5, 255, 38, 22, 6, 255] \<and>
   row4 tiny_rgba ([0x12, 0x3F] @ [0xAA, 0xBB]) [0..<3] [] =
     row4 tiny_rgba ([0x12, 0x3F] @ [0, 0]) [0..<3] [] \<and>
   pixel4 tiny_rgba [0x3F] 0 = Inr [35, 19, 3, 255] \<and>
   pixel4 tiny_rgba [0x3F] 1 = Inr [255, 0, 255, 0]"
proof -
  let ?bmp = "tiny_bmp 3 2 0 [0x12, 0x3F, 0xAA, 0xBB, 0x45, 0x6F, 0xCC, 0xDD]"
  let ?out = "[33, 17, 1, 255, 34, 18, 2, 255, 35, 19, 3, 255,
               36, 20, 4, 255, 37, 21, 5, 255, 38, 22, 6, 255 :: int]"
  have pal: "length tiny_rgba = 16" by (simp add: tiny_rgba_def palette_at_def)
  have q3: "quad (tiny_rgba ! 3) = [35, 19, 3, 255]" by code_simp
  have q15: "quad (tiny_rgba ! 15) = [255, 0, 255, 0]" by code_simp
  have c: "read_bmp_4bit ?bmp = Inr (3, 2, ?out)" by code_simp
  note t = four_bit_rows [of 3 ?bmp 3 2 ?out tiny_rgba "[0x12, 0x3F]" 3 "[0xAA, 0xBB]" "[]"
      "[0, 0]" 0 "[0x3F]"]
  have rs: "row_size 3 = 4" using t by simp
  have px: "?out = bmp_pixels ?bmp" using t c by simp
  have pad: "row4 tiny_rgba ([0x12, 0x3F] @ [0xAA, 0xBB]) [0..<3] [] =
             row4 tiny_rgba ([0x12, 0x3F] @ [0, 0]) [0..<3] []"
    using t pal by simp
  have n: "pixel4 tiny_rgba [0x3F] 0 = Inr [35, 19, 3, 255]"
    "pixel4 tiny_rgba [0x3F] 1 = Inr [255, 0, 255, 0]"
    using t pal q3 q15 by simp_all
  show ?thesis
    using rs c px pad n by (intro conjI) simp_all
qed

lemma take_drop_concat:
  assumes "\<forall>xs\<in>set xss. length xs = k" and "r < length xss"
  shows "take k (drop (k * r) (concat xss)) = xss ! r"
  using assms
proof (induction xss arbitrary: r)
  case Nil
  then show ?case by simp
next
  case (Cons xs xss)
  show ?case
  proof (cases r)
    case 0
    then show ?thesis using Cons.prems by simp
  next
    case (Suc m)
    then have "take k (drop (k * m) (concat xss)) = xss ! m"
      using Cons.prems by (intro Cons.IH) simp_all
    then show ?thesis using Suc Cons.prems by simp
  qed
qed

text \<open>The icon decoder does reverse the rows: output row \<open>r\<close> is stored row \<open>31 - r\<close>.\<close>

lemma icon_rows_top_down:
  assumes "bmp_to_rgba d 32 = Inr (px, ws)" and "r < 32"
  shows "take 128 (drop (128 * r) px) = icon_row d (31 - r)"
proof -
  have "12 \<le> length d"
    using assms(1) bmp_to_rgba_header_short [of d 32] by (cases "length d < 12") simp_all
  then obtain hs w h where hdr: "unpack_uint 4 (slice d 0 4) = Inr hs"
    "unpack_i32 (slice d 4 8) = Inr w" "unpack_i32 (slice d 8 12) = Inr h"
    using bmp_header_readable by blast
  have px: "px = concat (map (icon_row d) (rev [0..<32]))"
    using assms(1) unfolding bmp_to_rgba_cases [OF hdr] by (auto split: if_splits)
  have "take 128 (drop (128 * r) (concat (map (icon_row d) (rev [0..<32])))) =
        map (icon_row d) (rev [0..<32]) ! r"
    using assms(2) by (intro take_drop_concat) (simp_all add: length_icon_row)
  also have "\<dots> = icon_row d (rev [0..<32] ! r)"
    using assms(2) by (intro nth_map) simp
  also have "rev [0..<32] ! r = 31 - r"
    using assms(2) by (simp add: rev_nth)
  finally show ?thesis by (simp add: px)
qed

text \<open>
  Claim C3, at the input where the standalone decoder departs from it. The bitmap has two
  rows of two pixels; the first stored row has palette index 1 and the last stored row
  palette index 2. Output row 0 is the first stored row, not the last one.
\<close>

theorem rows_not_flipped:
  "read_bmp_4bit (tiny_bmp 2 2 0 [0x11, 0, 0, 0, 0x22, 0, 0, 0]) =
     Inr (2, 2, [33, 17, 1, 255, 33, 17, 1, 255, 34, 18, 2, 255, 34, 18, 2, 255]) \<and>
   row_pixels tiny_rgba [0x11, 0, 0, 0] 2 = [33, 17, 1, 255, 33, 17, 1, 255] \<and>
   row_pixels tiny_rgba [0x22, 0, 0, 0] 2 = [34, 18, 2, 255, 34, 18, 2, 255]"
proof (intro conjI)
  show "read_bmp_4bit (tiny_bmp 2 2 0 [0x11, 0, 0, 0, 0x22, 0, 0, 0]) =
     Inr (2, 2, [33, 17, 1, 255, 33, 17, 1, 255, 34, 18, 2, 255, 34, 18, 2, 255])"
    by code_simp
  show "row_pixels tiny_rgba [0x11, 0, 0, 0] 2 = [33, 17, 1, 255, 33, 17, 1, 255]"
    by code_simp
  show "row_pixels tiny_rgba [0x22, 0, 0, 0] 2 = [34, 18, 2, 255, 34, 18, 2, 255]"
    by code_simp
qed

end
